theory Spec2Isabelle
  imports Main "HOL-Library.Word"
begin

unbundle bit_operations_syntax

chapter \<open>The model\<close>

section \<open>Common data: bytes, Python exceptions, slices\<close>

text \<open>
  A Python \<open>bytes\<close> object is a list of 8-bit words; Python integers are unbounded
  (\<open>int\<close>; lengths, loop counts and the cursor of the parser are \<open>nat\<close>). An ASCII
  \<open>str\<close> (hexadecimal text, addresses) is a \<open>string\<close>; a \<open>str\<close> that can hold any
  character is a list of code points. An exception that a function of the program can
  raise is a value of \<open>py_error\<close>, returned as \<open>Inl\<close>.
\<close>

type_synonym byte = "8 word"

type_synonym unicode = "nat list"

datatype py_error = IndexError | StructError | ValueError | UnicodeDecodeError

text \<open>The slice \<open>xs[a:b]\<close> for \<open>0 \<le> a \<le> b\<close>: clipped at the end of \<open>xs\<close>, never an error.\<close>

definition py_slice :: "'a list \<Rightarrow> nat \<Rightarrow> nat \<Rightarrow> 'a list" where
  "py_slice xs a b = take (b - a) (drop a xs)"

text \<open>The subscript \<open>xs[i]\<close> for \<open>i \<ge> 0\<close>: an \<open>IndexError\<close> at or past the end.\<close>

definition py_index :: "'a list \<Rightarrow> nat \<Rightarrow> py_error + 'a" where
  "py_index xs i = (if i < length xs then Inr (xs ! i) else Inl IndexError)"

text \<open>\<open>int.from_bytes(bs, 'little')\<close>.\<close>

definition from_bytes_little :: "byte list \<Rightarrow> int" where
  "from_bytes_little bs = foldr (\<lambda>b acc. uint b + 256 * acc) bs 0"

text \<open>\<open>bytes.hex()\<close>: two lower-case hexadecimal digits for each byte.\<close>

definition hex_char :: "nat \<Rightarrow> char" where
  "hex_char n = ''0123456789abcdef'' ! n"

definition bytes_hex :: "byte list \<Rightarrow> string" where
  "bytes_hex bs = concat (map (\<lambda>b. [hex_char (unat b div 16), hex_char (unat b mod 16)]) bs)"

text \<open>The value of one hexadecimal digit, of either case.\<close>

definition hex_digit :: "char \<Rightarrow> nat option" where
  "hex_digit c =
     (let n = (of_char c :: nat) in
      if 48 \<le> n \<and> n \<le> 57 then Some (n - 48)
      else if 97 \<le> n \<and> n \<le> 102 then Some (n - 87)
      else if 65 \<le> n \<and> n \<le> 70 then Some (n - 55)
      else None)"

text \<open>
  \<open>bytes.fromhex(s)\<close>: two hexadecimal digits for each byte, ASCII whitespace skipped
  between bytes (not inside one), \<open>ValueError\<close> on anything else.
\<close>

definition ascii_space :: "char \<Rightarrow> bool" where
  "ascii_space c = (let n = (of_char c :: nat) in n = 32 \<or> (9 \<le> n \<and> n \<le> 13))"

fun fromhex :: "string \<Rightarrow> py_error + byte list" where
  "fromhex [] = Inr []"
| "fromhex (c # cs) =
     (if ascii_space c then fromhex cs
      else case hex_digit c of
        None \<Rightarrow> Inl ValueError
      | Some hi \<Rightarrow>
          (case cs of
             [] \<Rightarrow> Inl ValueError
           | d # ds \<Rightarrow>
               (case hex_digit d of
                  None \<Rightarrow> Inl ValueError
                | Some lo \<Rightarrow> map_sum id (Cons (of_nat (16 * hi + lo))) (fromhex ds))))"

section \<open>Byte-order reorderer: \<open>stratum_prevhash_to_blockchain\<close>\<close>

text \<open>
  The generator expressions of the source: \<open>range(0, 64, 8)\<close> is \<open>[0, 8, .., 56]\<close>,
  \<open>range(6, -1, -2)\<close> is \<open>[6, 4, 2, 0]\<close> and \<open>range(62, -1, -2)\<close> is \<open>[62, 60, .., 0]\<close>.
\<close>

definition stratum_prevhash_to_blockchain :: "string \<Rightarrow> string" where
  "stratum_prevhash_to_blockchain prevhash_hex =
     (if length prevhash_hex \<noteq> 64 then prevhash_hex
      else
        let internal =
              concat (map (\<lambda>i. concat (map (\<lambda>j. py_slice prevhash_hex (i + j) (i + j + 2))
                                               [6, 4, 2, 0]))
                          (map (\<lambda>k. 8 * k) [0..<8]))
        in concat (map (\<lambda>j. py_slice internal j (j + 2)) (map (\<lambda>k. 62 - 2 * k) [0..<32])))"

section \<open>Coinbase field decoders: \<open>parse_block_height\<close>, \<open>parse_coinbase_tag\<close>\<close>

subsection \<open>Python's text codecs and character classes\<close>

text \<open>
  \<open>bytes.decode('utf-8')\<close> is the strict decoder: it raises \<open>UnicodeDecodeError\<close> on a
  stray or missing continuation byte, on an overlong form, on a surrogate and on a code
  point above \<open>0x10FFFF\<close>. The result is the list of code points.
\<close>

definition is_cont :: "byte \<Rightarrow> bool" where
  "is_cont c = (0x80 \<le> c \<and> c \<le> 0xbf)"

definition cont_bits :: "byte \<Rightarrow> nat" where
  "cont_bits c = unat c - 0x80"

fun utf8_decode :: "byte list \<Rightarrow> py_error + unicode" where
  "utf8_decode [] = Inr []"
| "utf8_decode (b # bs) =
     (if b < 0x80 then map_sum id (Cons (unat b)) (utf8_decode bs)
      else if 0xc2 \<le> b \<and> b \<le> 0xdf then
        (case bs of
           c1 # r \<Rightarrow>
             if is_cont c1
             then map_sum id (Cons ((unat b - 0xc0) * 64 + cont_bits c1)) (utf8_decode r)
             else Inl UnicodeDecodeError
         | _ \<Rightarrow> Inl UnicodeDecodeError)
      else if 0xe0 \<le> b \<and> b \<le> 0xef then
        (case bs of
           c1 # c2 # r \<Rightarrow>
             if (if b = 0xe0 then 0xa0 else 0x80) \<le> c1 \<and> c1 \<le> (if b = 0xed then 0x9f else 0xbf)
                \<and> is_cont c2
             then map_sum id (Cons ((unat b - 0xe0) * 4096 + cont_bits c1 * 64 + cont_bits c2))
                    (utf8_decode r)
             else Inl UnicodeDecodeError
         | _ \<Rightarrow> Inl UnicodeDecodeError)
      else if 0xf0 \<le> b \<and> b \<le> 0xf4 then
        (case bs of
           c1 # c2 # c3 # r \<Rightarrow>
             if (if b = 0xf0 then 0x90 else 0x80) \<le> c1 \<and> c1 \<le> (if b = 0xf4 then 0x8f else 0xbf)
                \<and> is_cont c2 \<and> is_cont c3
             then map_sum id (Cons ((unat b - 0xf0) * 262144 + cont_bits c1 * 4096
                                     + cont_bits c2 * 64 + cont_bits c3))
                    (utf8_decode r)
             else Inl UnicodeDecodeError
         | _ \<Rightarrow> Inl UnicodeDecodeError)
      else Inl UnicodeDecodeError)"

text \<open>\<open>bytes.decode('latin-1')\<close>: one character per byte, never an error.\<close>

definition latin1_decode :: "byte list \<Rightarrow> unicode" where
  "latin1_decode bs = map unat bs"

text \<open>
  \<open>str.isprintable\<close> and \<open>str.isspace\<close> on one character. On ASCII they are written
  out: the printable characters are \<open>0x20 .. 0x7e\<close>; the whitespace characters are
  \<open>0x09 .. 0x0d\<close>, \<open>0x1c .. 0x1f\<close> and the space. Beyond ASCII they are read from the
  Unicode character database, which is not part of the program: the parameters \<open>U\<close>
  (printable) and \<open>W\<close> (whitespace) stand for its two tables.
\<close>

definition isprintable :: "(nat \<Rightarrow> bool) \<Rightarrow> nat \<Rightarrow> bool" where
  "isprintable U c = (if c < 128 then 32 \<le> c \<and> c \<le> 126 else U c)"

definition isspace :: "(nat \<Rightarrow> bool) \<Rightarrow> nat \<Rightarrow> bool" where
  "isspace W c = (if c < 128 then (9 \<le> c \<and> c \<le> 13) \<or> (28 \<le> c \<and> c \<le> 32) else W c)"

text \<open>\<open>str.strip()\<close>: leading and trailing whitespace removed.\<close>

definition py_strip :: "(nat \<Rightarrow> bool) \<Rightarrow> unicode \<Rightarrow> unicode" where
  "py_strip W t = rev (dropWhile (isspace W) (rev (dropWhile (isspace W) t)))"

subsection \<open>The two decoders\<close>

definition parse_block_height :: "byte list \<Rightarrow> py_error + int option" where
  "parse_block_height script_sig =
     (if length script_sig < 2 then Inr None
      else case py_index script_sig 0 of
        Inl e \<Rightarrow> Inl e
      | Inr b0 \<Rightarrow>
          let h_len = unat b0 in
          if 1 \<le> h_len \<and> h_len \<le> 8 \<and> length script_sig > h_len
          then Inr (Some (from_bytes_little (py_slice script_sig 1 (1 + h_len))))
          else Inr None)"

text \<open>
  The \<open>try\<close> block of \<open>parse_coinbase_tag\<close>: the handler catches \<open>UnicodeDecodeError\<close>
  and nothing else.
\<close>

definition decode_with_fallback :: "byte list \<Rightarrow> py_error + unicode" where
  "decode_with_fallback raw =
     (case utf8_decode raw of
        Inr t \<Rightarrow> Inr t
      | Inl e \<Rightarrow> if e = UnicodeDecodeError then Inr (latin1_decode raw) else Inl e)"

text \<open>The result is the pair (text, raw bytes); \<open>script_sig[1 + h_len:]\<close> is a \<open>drop\<close>.\<close>

definition parse_coinbase_tag ::
  "(nat \<Rightarrow> bool) \<Rightarrow> (nat \<Rightarrow> bool) \<Rightarrow> byte list \<Rightarrow> py_error + (unicode \<times> byte list)" where
  "parse_coinbase_tag U W script_sig =
     (if length script_sig < 2 then Inr ([], [])
      else case py_index script_sig 0 of
        Inl e \<Rightarrow> Inl e
      | Inr b0 \<Rightarrow>
          let h_len = unat b0;
              raw = drop (1 + h_len) script_sig
          in if raw = [] then Inr ([], [])
             else
               case decode_with_fallback raw of
                 Inl e \<Rightarrow> Inl e
               | Inr text \<Rightarrow>
                   Inr (py_strip W (filter (\<lambda>c. isprintable U c \<or> c = 32) text), raw))"

subsection \<open>Auxiliary notions for the properties\<close>

text \<open>The text that the \<open>try\<close> block produces: the UTF-8 decoding, or the Latin-1 one.\<close>

definition decode_text :: "byte list \<Rightarrow> unicode" where
  "decode_text raw = (case utf8_decode raw of Inr t \<Rightarrow> t | Inl _ \<Rightarrow> latin1_decode raw)"

definition raises_only_ude :: "py_error + 'a \<Rightarrow> bool" where
  "raises_only_ude r = (\<forall>e. r = Inl e \<longrightarrow> e = UnicodeDecodeError)"

section \<open>Difficulty codec: \<open>nbits_to_difficulty\<close>\<close>

text \<open>
  \<open>int(s, 16)\<close> is modelled on the strings that consist of hexadecimal digits, which is
  what a compact-target field is: any other string is answered with \<open>ValueError\<close>.
  (Python also accepts a sign, a \<open>0x\<close> prefix, underscores between digits and surrounding
  whitespace; no property below is about such a string.)
\<close>

fun int16_digits :: "int \<Rightarrow> string \<Rightarrow> py_error + int" where
  "int16_digits acc [] = Inr acc"
| "int16_digits acc (c # cs) =
     (case hex_digit c of
        None \<Rightarrow> Inl ValueError
      | Some d \<Rightarrow> int16_digits (16 * acc + int d) cs)"

definition py_int16 :: "string \<Rightarrow> py_error + int" where
  "py_int16 s = (if s = [] then Inl ValueError else int16_digits 0 s)"

text \<open>\<open>a << k\<close> on Python integers: a negative shift count raises \<open>ValueError\<close>.\<close>

definition py_lshift :: "int \<Rightarrow> int \<Rightarrow> py_error + int" where
  "py_lshift a k = (if k < 0 then Inl ValueError else Inr (push_bit (nat k) a))"

text \<open>
  The result pair of \<open>nbits_to_difficulty\<close>: \<open>NotAvailable\<close> is \<open>('N/A', 0.0)\<close>;
  \<open>Difficulty target\<close> is the pair that the source builds from the floating-point
  quotient \<open>_DIFF1_TARGET / target\<close> for a positive \<open>target\<close> (the floating-point
  division and the formatting with a unit are not modelled).
\<close>

datatype difficulty = NotAvailable | Difficulty int

definition nbits_to_difficulty :: "string \<Rightarrow> py_error + difficulty" where
  "nbits_to_difficulty nbits_hex =
     (case py_int16 nbits_hex of
        Inl e \<Rightarrow> Inl e
      | Inr nbits \<Rightarrow>
          let expo = drop_bit 24 nbits;
              coeff = nbits AND 0x007fffff;
              coeff = (if nbits AND 0x00800000 \<noteq> 0 then - coeff else coeff)
          in case py_lshift 1 (8 * (expo - 3)) of
               Inl e \<Rightarrow> Inl e
             | Inr p \<Rightarrow>
                 let target = coeff * p
                 in if target \<le> 0 then Inr NotAvailable else Inr (Difficulty target))"

section \<open>Address encoding: CashAddr\<close>

text \<open>
  The subscript \<open>xs[d]\<close> for any Python integer \<open>d\<close>: a negative index counts from the
  end, and an index out of range on either side raises \<open>IndexError\<close>.
\<close>

definition py_getitem :: "'a list \<Rightarrow> int \<Rightarrow> py_error + 'a" where
  "py_getitem xs d =
     (let n = int (length xs) in
      if 0 \<le> d \<and> d < n then Inr (xs ! nat d)
      else if - n \<le> d \<and> d < 0 then Inr (xs ! nat (n + d))
      else Inl IndexError)"

text \<open>A comprehension whose element expression can raise: the first exception ends it.\<close>

fun map_raising :: "('a \<Rightarrow> py_error + 'b) \<Rightarrow> 'a list \<Rightarrow> py_error + 'b list" where
  "map_raising f [] = Inr []"
| "map_raising f (x # xs) =
     (case f x of
        Inl e \<Rightarrow> Inl e
      | Inr y \<Rightarrow> (case map_raising f xs of Inl e \<Rightarrow> Inl e | Inr ys \<Rightarrow> Inr (y # ys)))"

definition CASHADDR_CHARSET :: string where
  "CASHADDR_CHARSET = ''qpzry9x8gf2tvdw0s3jn54khce6mua7l''"

text \<open>The body of the loop of \<open>_cashaddr_polymod\<close>, on Python's unbounded integers.\<close>

definition polymod_step :: "int \<Rightarrow> int \<Rightarrow> int" where
  "polymod_step c d =
     (let c0 = drop_bit 35 c;
          c = push_bit 5 (c AND 0x07ffffffff) XOR d;
          c = (if c0 AND 0x01 \<noteq> 0 then c XOR 0x98f2bc8e61 else c);
          c = (if c0 AND 0x02 \<noteq> 0 then c XOR 0x79b76d99e2 else c);
          c = (if c0 AND 0x04 \<noteq> 0 then c XOR 0xf33e5fb3c4 else c);
          c = (if c0 AND 0x08 \<noteq> 0 then c XOR 0xae2eabe2a8 else c);
          c = (if c0 AND 0x10 \<noteq> 0 then c XOR 0x1e4f43e470 else c)
      in c)"

definition cashaddr_polymod :: "int list \<Rightarrow> int" where
  "cashaddr_polymod values = foldl polymod_step 1 values XOR 1"

definition cashaddr_hrp_expand :: "string \<Rightarrow> int list" where
  "cashaddr_hrp_expand prefix = map (\<lambda>c. of_char c AND 0x1f) prefix @ [0]"

text \<open>
  \<open>_convert_bits\<close>. The inner \<open>while bits >= to_bits\<close> loop does not end when
  \<open>to_bits\<close> is 0, so it is a partial function: \<open>None\<close> is the loop that never returns.
  The accumulator is never masked: it is a Python integer that keeps every bit read so far.
\<close>

partial_function (option) convert_bits_while ::
  "int \<Rightarrow> nat \<Rightarrow> nat \<Rightarrow> int \<Rightarrow> int list \<Rightarrow> (nat \<times> int list) option" where
  "convert_bits_while acc bits to_bits maxv ret =
     (if bits \<ge> to_bits
      then convert_bits_while acc (bits - to_bits) to_bits maxv
             (ret @ [drop_bit (bits - to_bits) acc AND maxv])
      else Some (bits, ret))"

declare convert_bits_while.simps [code]

fun convert_bits_for ::
  "int list \<Rightarrow> nat \<Rightarrow> nat \<Rightarrow> int \<Rightarrow> int \<Rightarrow> nat \<Rightarrow> int list \<Rightarrow> (int \<times> nat \<times> int list) option" where
  "convert_bits_for [] from_bits to_bits maxv acc bits ret = Some (acc, bits, ret)"
| "convert_bits_for (v # data) from_bits to_bits maxv acc bits ret =
     (let acc = push_bit from_bits acc OR v;
          bits = bits + from_bits
      in case convert_bits_while acc bits to_bits maxv ret of
           None \<Rightarrow> None
         | Some (bits, ret) \<Rightarrow> convert_bits_for data from_bits to_bits maxv acc bits ret)"

definition convert_bits :: "int list \<Rightarrow> nat \<Rightarrow> nat \<Rightarrow> bool \<Rightarrow> int list option" where
  "convert_bits data from_bits to_bits pad =
     (let maxv = push_bit to_bits 1 - 1
      in case convert_bits_for data from_bits to_bits maxv 0 0 [] of
           None \<Rightarrow> None
         | Some (acc, bits, ret) \<Rightarrow>
             Some (if pad \<and> bits \<noteq> 0
                   then ret @ [push_bit (to_bits - bits) acc AND maxv]
                   else ret))"

text \<open>
  \<open>hash160_to_cashaddr\<close>: \<open>None\<close> when it does not return, \<open>Some (Inl e)\<close> when it
  raises \<open>e\<close>, \<open>Some (Inr s)\<close> when it returns the address \<open>s\<close>.
\<close>

definition hash160_to_cashaddr :: "byte list \<Rightarrow> string \<Rightarrow> (py_error + string) option" where
  "hash160_to_cashaddr hash160 script_type =
     (let prefix = ''bitcoincash'';
          version_byte = (if script_type = ''P2PKH'' then 0x00 else 0x08)
      in case convert_bits (version_byte # map uint hash160) 8 5 True of
           None \<Rightarrow> None
         | Some payload \<Rightarrow>
             let values = cashaddr_hrp_expand prefix @ payload @ replicate 8 0;
                 checksum = map (\<lambda>i. drop_bit (5 * (7 - i)) (cashaddr_polymod values) AND 0x1f)
                                [0..<8]
             in Some (case map_raising (py_getitem CASHADDR_CHARSET) (payload @ checksum) of
                        Inl e \<Rightarrow> Inl e
                      | Inr digits \<Rightarrow> Inr (prefix @ '':'' @ digits)))"

subsection \<open>The checksum polymod as the spec words it\<close>

text \<open>
  Spec 4.1: a linear-feedback computation over a fixed 40-bit state, folding five fixed
  40-bit generator constants conditioned on the top 5 bits of the state at each step,
  initial state 1, final result exclusive-ORed with 1. Here the state is a 40-bit word:
  the shift by 5 drops the top 5 bits by itself.
\<close>

definition CASHADDR_GENERATORS :: "40 word list" where
  "CASHADDR_GENERATORS = [0x98f2bc8e61, 0x79b76d99e2, 0xf33e5fb3c4, 0xae2eabe2a8, 0x1e4f43e470]"

definition lfsr_step :: "40 word \<Rightarrow> 40 word \<Rightarrow> 40 word" where
  "lfsr_step state d =
     (let top = drop_bit 35 state;
          shifted = push_bit 5 state XOR d
      in foldl (\<lambda>s i. if bit top i then s XOR CASHADDR_GENERATORS ! i else s) shifted [0..<5])"

definition checksum_polymod :: "40 word list \<Rightarrow> 40 word" where
  "checksum_polymod values = foldl lfsr_step 1 values XOR 1"

section \<open>Address encoding: legacy Base58Check\<close>

text \<open>
  The hash functions of \<open>hashlib\<close> are not part of the program: \<open>sha256\<close> and
  \<open>ripemd160\<close> are parameters of the functions that call them.
\<close>

definition BASE58_ALPHABET :: string where
  "BASE58_ALPHABET = ''123456789ABCDEFGHJKLMNPQRSTUVWXYZabcdefghijkmnopqrstuvwxyz''"

text \<open>\<open>int.from_bytes(data, 'big')\<close>.\<close>

definition from_bytes_big :: "byte list \<Rightarrow> nat" where
  "from_bytes_big bs = foldl (\<lambda>acc b. 256 * acc + unat b) 0 bs"

text \<open>
  The loop \<open>while n > 0: n, r = divmod(n, 58); result = _BASE58_ALPHABET[r] + result\<close>.
  The remainder is below 58, the length of the alphabet, so the subscript is in range.
\<close>

function base58_digits :: "nat \<Rightarrow> string \<Rightarrow> string" where
  "base58_digits n result =
     (if n > 0 then base58_digits (n div 58) (BASE58_ALPHABET ! (n mod 58) # result)
      else result)"
  by pat_completeness auto
termination
  by (relation "measure fst") auto

definition base58check_encode :: "(byte list \<Rightarrow> byte list) \<Rightarrow> byte list \<Rightarrow> string" where
  "base58check_encode sha256 payload =
     (let checksum = take 4 (sha256 (sha256 payload));
          data = payload @ checksum;
          n = from_bytes_big data;
          result = base58_digits n []
      in replicate (length (takeWhile (\<lambda>b. b = 0) data)) (CHR ''1'') @ result)"

definition hash160_to_legacy :: "(byte list \<Rightarrow> byte list) \<Rightarrow> byte list \<Rightarrow> string \<Rightarrow> string" where
  "hash160_to_legacy sha256 hash160 script_type =
     (let version = (if script_type = ''P2PKH'' then [0x00] else [0x05])
      in base58check_encode sha256 (version @ hash160))"

section \<open>Script classifier: \<open>parse_script_pubkey\<close>\<close>

text \<open>The address dictionary with its two keys.\<close>

record addresses =
  cashaddr :: string
  legacy :: string

text \<open>
  The pair of addresses of a hash: \<open>None\<close> and \<open>Some (Inl e)\<close> are passed on from
  \<open>hash160_to_cashaddr\<close>.
\<close>

definition address_dict ::
  "(byte list \<Rightarrow> byte list) \<Rightarrow> byte list \<Rightarrow> string \<Rightarrow> (py_error + addresses) option" where
  "address_dict sha256 h160 script_type =
     (case hash160_to_cashaddr h160 script_type of
        None \<Rightarrow> None
      | Some (Inl e) \<Rightarrow> Some (Inl e)
      | Some (Inr ca) \<Rightarrow>
          Some (Inr \<lparr>cashaddr = ca, legacy = hash160_to_legacy sha256 h160 script_type\<rparr>))"

text \<open>
  The result is the triple (script type, address dictionary or \<open>None\<close>, extra hex).
  The subscripts \<open>script[22]\<close>, \<open>script[0]\<close> and \<open>script[-1]\<close> are read after the checks
  that the script has 23 bytes, respectively is not empty; \<open>script[1:-1]\<close> is
  \<open>butlast (drop 1 script)\<close>.
\<close>

definition parse_script_pubkey ::
  "(byte list \<Rightarrow> byte list) \<Rightarrow> (byte list \<Rightarrow> byte list) \<Rightarrow> byte list
   \<Rightarrow> (py_error + string \<times> addresses option \<times> string) option" where
  "parse_script_pubkey sha256 ripemd160 script =
     (if script = [] then Some (Inr (''EMPTY'', None, ''''))
      else if length script = 25 \<and> py_slice script 0 3 = [0x76, 0xa9, 0x14]
              \<and> drop 23 script = [0x88, 0xac]
      then
        (let h160 = py_slice script 3 23
         in case address_dict sha256 h160 ''P2PKH'' of
              None \<Rightarrow> None
            | Some (Inl e) \<Rightarrow> Some (Inl e)
            | Some (Inr a) \<Rightarrow> Some (Inr (''P2PKH'', Some a, bytes_hex h160)))
      else if length script = 23 \<and> py_slice script 0 2 = [0xa9, 0x14] \<and> script ! 22 = 0x87
      then
        (let h160 = py_slice script 2 22
         in case address_dict sha256 h160 ''P2SH'' of
              None \<Rightarrow> None
            | Some (Inl e) \<Rightarrow> Some (Inl e)
            | Some (Inr a) \<Rightarrow> Some (Inr (''P2SH'', Some a, bytes_hex h160)))
      else if script ! 0 = 0x6a
      then Some (Inr (''OP_RETURN'', None, bytes_hex (drop 1 script)))
      else if last script = 0xac \<and> (length script = 35 \<or> length script = 67)
              \<and> unat (script ! 0) = length script - 2
      then
        (let pubkey = butlast (drop 1 script);
             h160 = ripemd160 (sha256 pubkey)
         in case address_dict sha256 h160 ''P2PKH'' of
              None \<Rightarrow> None
            | Some (Inl e) \<Rightarrow> Some (Inl e)
            | Some (Inr a) \<Rightarrow> Some (Inr (''P2PK'', Some a, bytes_hex pubkey)))
      else Some (Inr (''UNKNOWN'', None, bytes_hex script)))"

section \<open>Raw coinbase transaction parser: \<open>CoinbaseTxParser\<close>\<close>

text \<open>
  The dictionaries that \<open>parse\<close> builds, as records. The key \<open>value\<close> of an output is
  the field \<open>value'\<close>. The previous transaction id is kept as the hexadecimal text that
  \<open>.hex()\<close> returns.
\<close>

record tx_input =
  prev_hash :: string
  prev_index :: int
  scriptSig :: "byte list"
  sequence :: int

record tx_output =
  value' :: int
  scriptPubKey :: "byte list"

record raw_tx =
  version :: int
  inputs :: "tx_input list"
  outputs :: "tx_output list"
  locktime :: int

text \<open>
  A step of an exception-raising computation: the first exception ends it.
\<close>

definition bind_exc :: "'e + 'a \<Rightarrow> ('a \<Rightarrow> 'e + 'b) \<Rightarrow> 'e + 'b" where
  "bind_exc r f = (case r of Inl e \<Rightarrow> Inl e | Inr x \<Rightarrow> f x)"

subsection \<open>Low-level readers\<close>

text \<open>
  The parser object is the buffer \<open>_data\<close>, which never changes, and the cursor \<open>_pos\<close>:
  every reader takes the cursor and returns the new one beside its value.

  \<open>_read(n)\<close> is a slice: at the end of the buffer it returns fewer than \<open>n\<close> bytes (none
  when the cursor is already past the end), raises nothing, and still advances the
  cursor by \<open>n\<close>.
\<close>

definition read :: "byte list \<Rightarrow> nat \<Rightarrow> nat \<Rightarrow> byte list \<times> nat" where
  "read data pos n = (py_slice data pos (pos + n), pos + n)"

text \<open>
  \<open>struct.unpack\<close> with the little-endian formats \<open><H\<close>, \<open><I\<close>, \<open><Q\<close> (unsigned, 2, 4
  and 8 bytes) and \<open><i\<close> (signed, 4 bytes): \<open>struct.error\<close> unless the buffer has exactly
  the size of the format.
\<close>

definition unpack_unsigned :: "nat \<Rightarrow> byte list \<Rightarrow> py_error + int" where
  "unpack_unsigned sz chunk =
     (if length chunk = sz then Inr (from_bytes_little chunk) else Inl StructError)"

definition unpack_i32 :: "byte list \<Rightarrow> py_error + int" where
  "unpack_i32 chunk =
     (if length chunk = 4
      then Inr (let u = from_bytes_little chunk in if u < 2 ^ 31 then u else u - 2 ^ 32)
      else Inl StructError)"

definition u32 :: "byte list \<Rightarrow> nat \<Rightarrow> py_error + int \<times> nat" where
  "u32 data pos =
     (let (chunk, pos) = read data pos 4
      in bind_exc (unpack_unsigned 4 chunk) (\<lambda>v. Inr (v, pos)))"

definition i32 :: "byte list \<Rightarrow> nat \<Rightarrow> py_error + int \<times> nat" where
  "i32 data pos =
     (let (chunk, pos) = read data pos 4
      in bind_exc (unpack_i32 chunk) (\<lambda>v. Inr (v, pos)))"

definition u64 :: "byte list \<Rightarrow> nat \<Rightarrow> py_error + int \<times> nat" where
  "u64 data pos =
     (let (chunk, pos) = read data pos 8
      in bind_exc (unpack_unsigned 8 chunk) (\<lambda>v. Inr (v, pos)))"

text \<open>\<open>_varint\<close>: the first byte is a subscript, \<open>IndexError\<close> at the end of the buffer.\<close>

definition varint :: "byte list \<Rightarrow> nat \<Rightarrow> py_error + int \<times> nat" where
  "varint data pos =
     bind_exc (py_index data pos) (\<lambda>n.
       let pos = pos + 1
       in if n < 0xfd then Inr (uint n, pos)
          else
            let (chunk, pos) = read data pos (if n = 0xfd then 2 else if n = 0xfe then 4 else 8)
            in bind_exc
                 (unpack_unsigned (if n = 0xfd then 2 else if n = 0xfe then 4 else 8) chunk)
                 (\<lambda>v. Inr (v, pos)))"

subsection \<open>The main entry point\<close>

text \<open>
  The two \<open>for _ in range(count)\<close> loops, by recursion on the count (a varint is
  never negative, so the count and the script length are taken as natural numbers): each
  round reads one input (one output) and the rest of the rounds append theirs after it.
\<close>

fun parse_inputs :: "nat \<Rightarrow> byte list \<Rightarrow> nat \<Rightarrow> py_error + tx_input list \<times> nat" where
  "parse_inputs 0 data pos = Inr ([], pos)"
| "parse_inputs (Suc k) data pos =
     (let (h, pos) = read data pos 32
      in bind_exc (u32 data pos) (\<lambda>(prev_index, pos).
         bind_exc (varint data pos) (\<lambda>(script_len, pos).
           let (script_sig, pos) = read data pos (nat script_len)
           in bind_exc (u32 data pos) (\<lambda>(sequence, pos).
              bind_exc (parse_inputs k data pos) (\<lambda>(rest, pos).
                Inr (\<lparr>prev_hash = bytes_hex h, prev_index = prev_index,
                       scriptSig = script_sig, sequence = sequence\<rparr> # rest, pos))))))"

fun parse_outputs :: "nat \<Rightarrow> byte list \<Rightarrow> nat \<Rightarrow> py_error + tx_output list \<times> nat" where
  "parse_outputs 0 data pos = Inr ([], pos)"
| "parse_outputs (Suc k) data pos =
     bind_exc (u64 data pos) (\<lambda>(v, pos).
     bind_exc (varint data pos) (\<lambda>(script_len, pos).
       let (script_pubkey, pos) = read data pos (nat script_len)
       in bind_exc (parse_outputs k data pos) (\<lambda>(rest, pos).
            Inr (\<lparr>value' = v, scriptPubKey = script_pubkey\<rparr> # rest, pos))))"

text \<open>\<open>parse\<close> with the cursor it ends at, and \<open>parse\<close> itself (cursor 0 at the start).\<close>

definition parse_from :: "byte list \<Rightarrow> nat \<Rightarrow> py_error + raw_tx \<times> nat" where
  "parse_from data pos =
     bind_exc (i32 data pos) (\<lambda>(ver, pos).
     bind_exc (varint data pos) (\<lambda>(in_count, pos).
     bind_exc (parse_inputs (nat in_count) data pos) (\<lambda>(ins, pos).
     bind_exc (varint data pos) (\<lambda>(out_count, pos).
     bind_exc (parse_outputs (nat out_count) data pos) (\<lambda>(outs, pos).
     bind_exc (u32 data pos) (\<lambda>(lock, pos).
       Inr (\<lparr>version = ver, inputs = ins, outputs = outs, locktime = lock\<rparr>, pos)))))))"

definition parse :: "byte list \<Rightarrow> py_error + raw_tx" where
  "parse data = map_sum id fst (parse_from data 0)"

subsection \<open>The decoder as the spec words it: every read checked against the buffer\<close>

text \<open>
  Spec 4.4: the decoder fails with a truncation error if the cursor would read past the
  end of the buffer. This second decoder makes that check at every read, and has no other
  way to fail; its integers and records are those of the source.
\<close>

datatype decode_error = Truncated

definition read_checked :: "byte list \<Rightarrow> nat \<Rightarrow> nat \<Rightarrow> decode_error + byte list \<times> nat" where
  "read_checked data pos n =
     (if pos + n \<le> length data then Inr (py_slice data pos (pos + n), pos + n)
      else Inl Truncated)"

definition signed32 :: "int \<Rightarrow> int" where
  "signed32 u = (if u < 2 ^ 31 then u else u - 2 ^ 32)"

definition u32_checked :: "byte list \<Rightarrow> nat \<Rightarrow> decode_error + int \<times> nat" where
  "u32_checked data pos =
     bind_exc (read_checked data pos 4) (\<lambda>(chunk, pos). Inr (from_bytes_little chunk, pos))"

definition i32_checked :: "byte list \<Rightarrow> nat \<Rightarrow> decode_error + int \<times> nat" where
  "i32_checked data pos =
     bind_exc (read_checked data pos 4) (\<lambda>(chunk, pos).
       Inr (signed32 (from_bytes_little chunk), pos))"

definition u64_checked :: "byte list \<Rightarrow> nat \<Rightarrow> decode_error + int \<times> nat" where
  "u64_checked data pos =
     bind_exc (read_checked data pos 8) (\<lambda>(chunk, pos). Inr (from_bytes_little chunk, pos))"

definition varint_checked :: "byte list \<Rightarrow> nat \<Rightarrow> decode_error + int \<times> nat" where
  "varint_checked data pos =
     bind_exc (read_checked data pos 1) (\<lambda>(first, pos).
       let n = hd first
       in if n < 0xfd then Inr (uint n, pos)
          else bind_exc (read_checked data pos (if n = 0xfd then 2 else if n = 0xfe then 4 else 8))
                 (\<lambda>(chunk, pos). Inr (from_bytes_little chunk, pos)))"

fun parse_inputs_checked ::
  "nat \<Rightarrow> byte list \<Rightarrow> nat \<Rightarrow> decode_error + tx_input list \<times> nat" where
  "parse_inputs_checked 0 data pos = Inr ([], pos)"
| "parse_inputs_checked (Suc k) data pos =
     bind_exc (read_checked data pos 32) (\<lambda>(h, pos).
     bind_exc (u32_checked data pos) (\<lambda>(prev_index, pos).
     bind_exc (varint_checked data pos) (\<lambda>(script_len, pos).
     bind_exc (read_checked data pos (nat script_len)) (\<lambda>(script_sig, pos).
     bind_exc (u32_checked data pos) (\<lambda>(sequence, pos).
     bind_exc (parse_inputs_checked k data pos) (\<lambda>(rest, pos).
       Inr (\<lparr>prev_hash = bytes_hex h, prev_index = prev_index,
              scriptSig = script_sig, sequence = sequence\<rparr> # rest, pos)))))))"

fun parse_outputs_checked ::
  "nat \<Rightarrow> byte list \<Rightarrow> nat \<Rightarrow> decode_error + tx_output list \<times> nat" where
  "parse_outputs_checked 0 data pos = Inr ([], pos)"
| "parse_outputs_checked (Suc k) data pos =
     bind_exc (u64_checked data pos) (\<lambda>(v, pos).
     bind_exc (varint_checked data pos) (\<lambda>(script_len, pos).
     bind_exc (read_checked data pos (nat script_len)) (\<lambda>(script_pubkey, pos).
     bind_exc (parse_outputs_checked k data pos) (\<lambda>(rest, pos).
       Inr (\<lparr>value' = v, scriptPubKey = script_pubkey\<rparr> # rest, pos)))))"

definition parse_from_checked :: "byte list \<Rightarrow> nat \<Rightarrow> decode_error + raw_tx \<times> nat" where
  "parse_from_checked data pos =
     bind_exc (i32_checked data pos) (\<lambda>(ver, pos).
     bind_exc (varint_checked data pos) (\<lambda>(in_count, pos).
     bind_exc (parse_inputs_checked (nat in_count) data pos) (\<lambda>(ins, pos).
     bind_exc (varint_checked data pos) (\<lambda>(out_count, pos).
     bind_exc (parse_outputs_checked (nat out_count) data pos) (\<lambda>(outs, pos).
     bind_exc (u32_checked data pos) (\<lambda>(lock, pos).
       Inr (\<lparr>version = ver, inputs = ins, outputs = outs, locktime = lock\<rparr>, pos)))))))"

definition parse_checked :: "byte list \<Rightarrow> decode_error + raw_tx" where
  "parse_checked data = map_sum id fst (parse_from_checked data 0)"

text \<open>
  The two exceptions that the source's readers raise at the end of the buffer:
  \<open>IndexError\<close> from the subscript in \<open>_varint\<close>, \<open>struct.error\<close> from
  \<open>struct.unpack\<close> on a chunk that \<open>_read\<close> returned short.
\<close>

definition truncation_exc :: "py_error \<Rightarrow> bool" where
  "truncation_exc e = (e = IndexError \<or> e = StructError)"

text \<open>
  How a result of the source's reader stands to the result of the checked reader on a
  buffer of length \<open>len\<close>: an exception of the source is one of the two above and the
  checked reader reports the truncation; a value of the source is the same value with the
  same cursor, within the buffer.
\<close>

definition agrees :: "nat \<Rightarrow> py_error + 'a \<times> nat \<Rightarrow> decode_error + 'a \<times> nat \<Rightarrow> bool" where
  "agrees len a b =
     (case a of
        Inl e \<Rightarrow> truncation_exc e \<and> b = Inl Truncated
      | Inr (v, p) \<Rightarrow> p \<le> len \<and> b = Inr (v, p))"

text \<open>
  The same, for a reader that can end with its cursor past the end of the buffer without
  having raised (a reader whose last step is a \<open>_read\<close>): then the checked reader has
  failed.
\<close>

definition agrees_late :: "nat \<Rightarrow> py_error + 'a \<times> nat \<Rightarrow> decode_error + 'a \<times> nat \<Rightarrow> bool" where
  "agrees_late len a b =
     (case a of
        Inl e \<Rightarrow> truncation_exc e \<and> b = Inl Truncated
      | Inr (v, p) \<Rightarrow> if p \<le> len then b = Inr (v, p) else b = Inl Truncated)"

text \<open>A result of the source's reader that has raised, or has left the buffer.\<close>

definition overran :: "nat \<Rightarrow> py_error + 'a \<times> nat \<Rightarrow> bool" where
  "overran len a = (case a of Inl e \<Rightarrow> truncation_exc e | Inr (v, p) \<Rightarrow> len < p)"

subsection \<open>The re-serializer of the round-trip test\<close>

text \<open>
  Modelled from the spec: the re-serializer that the round-trip property of spec 3 and 8
  names; the repository has no serializer. It writes the fields in the layout of spec 4.4:
  a 32-bit version, the input count as a varint, for each input the 32 bytes of the
  previous transaction id, a 32-bit index, the varint-prefixed unlock script and a 32-bit
  sequence number, then the output count as a varint, for each output a 64-bit value and
  the varint-prefixed script, and a 32-bit locktime; integers little-endian, a count or
  length as the shortest varint that holds it.
\<close>

fun le_bytes :: "nat \<Rightarrow> int \<Rightarrow> byte list" where
  "le_bytes 0 v = []"
| "le_bytes (Suc k) v = word_of_int v # le_bytes k (v div 256)"

definition ser_varint :: "int \<Rightarrow> byte list" where
  "ser_varint n =
     (if n < 0xfd then [word_of_int n]
      else if n \<le> 0xffff then 0xfd # le_bytes 2 n
      else if n \<le> 0xffffffff then 0xfe # le_bytes 4 n
      else 0xff # le_bytes 8 n)"

definition bytes_of_hex :: "string \<Rightarrow> byte list" where
  "bytes_of_hex s = (case fromhex s of Inr bs \<Rightarrow> bs | Inl _ \<Rightarrow> [])"

definition ser_input :: "tx_input \<Rightarrow> byte list" where
  "ser_input i =
     bytes_of_hex (prev_hash i) @ le_bytes 4 (prev_index i)
     @ ser_varint (int (length (scriptSig i))) @ scriptSig i @ le_bytes 4 (sequence i)"

definition ser_output :: "tx_output \<Rightarrow> byte list" where
  "ser_output out =
     le_bytes 8 (value' out) @ ser_varint (int (length (scriptPubKey out))) @ scriptPubKey out"

definition serialize_tx :: "raw_tx \<Rightarrow> byte list" where
  "serialize_tx tx =
     le_bytes 4 (version tx)
     @ ser_varint (int (length (inputs tx))) @ concat (map ser_input (inputs tx))
     @ ser_varint (int (length (outputs tx))) @ concat (map ser_output (outputs tx))
     @ le_bytes 4 (locktime tx)"

text \<open>
  The records of spec 3: a 32-byte transaction id (here the 64 lower-case hexadecimal
  digits that the parser stores), 32-bit index, sequence number and locktime, a signed
  32-bit version, 64-bit values, and counts and script lengths that a varint can hold.
\<close>

definition lower_hex :: "char \<Rightarrow> bool" where
  "lower_hex c = (c \<in> set ''0123456789abcdef'')"

definition valid_input :: "tx_input \<Rightarrow> bool" where
  "valid_input i =
     (length (prev_hash i) = 64 \<and> list_all lower_hex (prev_hash i)
      \<and> 0 \<le> prev_index i \<and> prev_index i < 2 ^ 32
      \<and> 0 \<le> sequence i \<and> sequence i < 2 ^ 32
      \<and> int (length (scriptSig i)) < 2 ^ 64)"

definition valid_output :: "tx_output \<Rightarrow> bool" where
  "valid_output out =
     (0 \<le> value' out \<and> value' out < 2 ^ 64 \<and> int (length (scriptPubKey out)) < 2 ^ 64)"

definition valid_tx :: "raw_tx \<Rightarrow> bool" where
  "valid_tx tx =
     (- (2 ^ 31) \<le> version tx \<and> version tx < 2 ^ 31
      \<and> 0 \<le> locktime tx \<and> locktime tx < 2 ^ 32
      \<and> int (length (inputs tx)) < 2 ^ 64 \<and> list_all valid_input (inputs tx)
      \<and> int (length (outputs tx)) < 2 ^ 64 \<and> list_all valid_output (outputs tx))"

section \<open>Stratum session: \<open>query_pool\<close>\<close>

subsection \<open>Assembly of the coinbase transaction\<close>

text \<open>
  \<open>coinbase_hex = cb1 + extranonce1 + ('00' * extranonce2_size) + cb2\<close>: a string times
  an integer that is not positive is the empty string. The parser object then holds
  \<open>bytes.fromhex(coinbase_hex)\<close>; these are the bytes that \<open>parse\<close> decodes.
\<close>

definition coinbase_hex :: "string \<Rightarrow> string \<Rightarrow> int \<Rightarrow> string \<Rightarrow> string" where
  "coinbase_hex cb1 extranonce1 extranonce2_size cb2 =
     cb1 @ extranonce1 @ concat (replicate (nat extranonce2_size) ''00'') @ cb2"

definition coinbase_bytes :: "string \<Rightarrow> string \<Rightarrow> int \<Rightarrow> string \<Rightarrow> py_error + byte list" where
  "coinbase_bytes cb1 extranonce1 extranonce2_size cb2 =
     fromhex (coinbase_hex cb1 extranonce1 extranonce2_size cb2)"

definition decode_coinbase :: "string \<Rightarrow> string \<Rightarrow> int \<Rightarrow> string \<Rightarrow> py_error + raw_tx" where
  "decode_coinbase cb1 extranonce1 extranonce2_size cb2 =
     bind_exc (coinbase_bytes cb1 extranonce1 extranonce2_size cb2) parse"

subsection \<open>The polling loop\<close>

text \<open>
  A received message is a JSON object; the loop reads four things of it:
  \<open>r.get('method', '')\<close> (a method that is not a string equals neither of the two method
  names, as the empty string), \<open>r.get('id')\<close> (compared with 2), whether
  \<open>r.get('result')\<close> is \<open>True\<close>, and \<open>r.get('params')\<close>, absent or a list.
\<close>

datatype json = JNull | JBool bool | JNum int | JStr string | JArr "json list"

record frame =
  fr_method :: string
  fr_id :: "int option"
  fr_result_true :: bool
  fr_params :: "json list option"

text \<open>The three variables of the loop.\<close>

record poll_state =
  notify :: "frame option"
  pool_diff :: json
  auth_rejected :: bool

text \<open>
  The body of \<open>for r in responses\<close>. \<open>r.get('params', [None])[0]\<close> raises
  \<open>IndexError\<close> on an empty list.
\<close>

definition handle_frame :: "poll_state \<Rightarrow> frame \<Rightarrow> py_error + poll_state" where
  "handle_frame st r =
     (let m = fr_method r in
      if m = ''mining.notify'' then Inr (st\<lparr>notify := Some r\<rparr>)
      else if m = ''mining.set_difficulty'' then
        bind_exc (py_index (case fr_params r of None \<Rightarrow> [JNull] | Some ps \<Rightarrow> ps) 0)
          (\<lambda>d. Inr (st\<lparr>pool_diff := d\<rparr>))
      else if fr_id r = Some 2 then
        (if fr_result_true r then Inr st else Inr (st\<lparr>auth_rejected := True\<rparr>))
      else Inr st)"

fun handle_frames :: "poll_state \<Rightarrow> frame list \<Rightarrow> py_error + poll_state" where
  "handle_frames st [] = Inr st"
| "handle_frames st (r # rs) = bind_exc (handle_frame st r) (\<lambda>st. handle_frames st rs)"

text \<open>
  \<open>for attempt in range(15)\<close>, by recursion on the attempts that are left. The script is
  the list of what the successive calls of \<open>_stratum_recv\<close> return; a call past the end
  of the script times out and returns the empty list. After each batch the loop breaks
  when \<open>notify or auth_rejected\<close> holds.
\<close>

fun poll :: "nat \<Rightarrow> frame list list \<Rightarrow> poll_state \<Rightarrow> py_error + poll_state" where
  "poll 0 script st = Inr st"
| "poll (Suc n) script st =
     (let responses = (case script of [] \<Rightarrow> [] | b # _ \<Rightarrow> b)
      in bind_exc (handle_frames st responses) (\<lambda>st.
           if notify st \<noteq> None \<or> auth_rejected st then Inr st
           else poll n (tl script) st))"

text \<open>
  How the wait ends: the pool rejected the worker, no job came in time, an exception left
  \<open>query_pool\<close> through its handler, or the job is taken and decoded.
\<close>

datatype outcome = FailedRejected | FailedTimeout | FailedException py_error | JobReceived frame

definition wait_for_notify :: "frame list list \<Rightarrow> outcome" where
  "wait_for_notify script =
     (case poll 15 script \<lparr>notify = None, pool_diff = JNull, auth_rejected = False\<rparr> of
        Inl e \<Rightarrow> FailedException e
      | Inr st \<Rightarrow>
          if auth_rejected st \<and> notify st = None then FailedRejected
          else (case notify st of None \<Rightarrow> FailedTimeout | Some job \<Rightarrow> JobReceived job))"

subsection \<open>Auxiliary notions for the properties\<close>

text \<open>The frames by what the loop takes them for.\<close>

definition is_notify :: "frame \<Rightarrow> bool" where
  "is_notify r = (fr_method r = ''mining.notify'')"

definition is_difficulty :: "frame \<Rightarrow> bool" where
  "is_difficulty r = (fr_method r = ''mining.set_difficulty'')"

definition is_reject :: "frame \<Rightarrow> bool" where
  "is_reject r = (\<not> is_notify r \<and> \<not> is_difficulty r \<and> fr_id r = Some 2 \<and> \<not> fr_result_true r)"

text \<open>A frame at which the loop body raises: a difficulty notification with no parameter.\<close>

definition raises :: "frame \<Rightarrow> bool" where
  "raises r = (is_difficulty r \<and> fr_params r = Some [])"

text \<open>
  In a sequence of frames, an authorize rejection arrives before any job notification:
  the first frame that is one or the other is a rejection.
\<close>

definition reject_arrives_first :: "frame list \<Rightarrow> bool" where
  "reject_arrives_first frames =
     (case dropWhile (\<lambda>r. \<not> is_notify r \<and> \<not> is_reject r) frames of
        [] \<Rightarrow> False
      | r # _ \<Rightarrow> is_reject r)"

text \<open>In a sequence of frames, a job notification arrives after an authorize rejection.\<close>

definition notify_after_reject :: "frame list \<Rightarrow> bool" where
  "notify_after_reject frames = list_ex is_notify (dropWhile (\<lambda>r. \<not> is_reject r) frames)"

text \<open>Two frames for the examples: an authorize rejection and a job notification.\<close>

definition rejection_frame :: frame where
  "rejection_frame =
     \<lparr>fr_method = '''', fr_id = Some 2, fr_result_true = False, fr_params = None\<rparr>"

definition job_frame :: frame where
  "job_frame =
     \<lparr>fr_method = ''mining.notify'', fr_id = None, fr_result_true = False,
      fr_params = Some [JStr ''1f'']\<rparr>"

chapter \<open>Properties\<close>

section \<open>Properties of the byte-order reorderer\<close>

lemma list_of_length_8:
  "length (xs::'a list) = 8 \<Longrightarrow> \<exists>a b c d e f g h. xs = [a, b, c, d, e, f, g, h]"
  by (auto simp: length_Suc_conv numeral_eq_Suc)

lemma take_drop_chain: "take n (drop m s) @ drop (m + n) s = drop m s"
  by (metis add.commute append_take_drop_id drop_drop)

lemma split_into_8_groups:
  assumes "length (s::'a list) = 64"
  shows "s = take 8 (drop 0 s) @ take 8 (drop 8 s) @ take 8 (drop 16 s) @ take 8 (drop 24 s) @
             take 8 (drop 32 s) @ take 8 (drop 40 s) @ take 8 (drop 48 s) @ take 8 (drop 56 s)"
proof -
  have e: "drop 64 s = []" using assms by simp
  show ?thesis
    using take_drop_chain[of 8 0 s] take_drop_chain[of 8 8 s] take_drop_chain[of 8 16 s]
      take_drop_chain[of 8 24 s] take_drop_chain[of 8 32 s] take_drop_chain[of 8 40 s]
      take_drop_chain[of 8 48 s] take_drop_chain[of 8 56 s] e
    by (simp del: append_take_drop_id)
qed

text \<open>
  On every 64-character input the two steps together reverse the order of the eight
  8-character groups and leave each group as it is: the reversal inside the groups
  (step 1) is undone by the reversal of the whole (step 2).
\<close>

lemma prevhash_reverses_group_order:
  assumes "length s = 64"
  shows "stratum_prevhash_to_blockchain s =
         concat (map (\<lambda>g. py_slice s (8 * g) (8 * g + 8)) (rev [0..<8]))"
proof -
  let ?c = "\<lambda>k. take 8 (drop k s)"
  have l: "\<And>k. k \<le> 56 \<Longrightarrow> length (?c k) = 8" using assms by simp
  obtain a0 a1 a2 a3 a4 a5 a6 a7 where a: "?c 0 = [a0,a1,a2,a3,a4,a5,a6,a7]"
    using list_of_length_8[OF l[of 0]] by auto
  obtain b0 b1 b2 b3 b4 b5 b6 b7 where b: "?c 8 = [b0,b1,b2,b3,b4,b5,b6,b7]"
    using list_of_length_8[OF l[of 8]] by auto
  obtain c0 c1 c2 c3 c4 c5 c6 c7 where c: "?c 16 = [c0,c1,c2,c3,c4,c5,c6,c7]"
    using list_of_length_8[OF l[of 16]] by auto
  obtain d0 d1 d2 d3 d4 d5 d6 d7 where d: "?c 24 = [d0,d1,d2,d3,d4,d5,d6,d7]"
    using list_of_length_8[OF l[of 24]] by auto
  obtain e0 e1 e2 e3 e4 e5 e6 e7 where e: "?c 32 = [e0,e1,e2,e3,e4,e5,e6,e7]"
    using list_of_length_8[OF l[of 32]] by auto
  obtain f0 f1 f2 f3 f4 f5 f6 f7 where f: "?c 40 = [f0,f1,f2,f3,f4,f5,f6,f7]"
    using list_of_length_8[OF l[of 40]] by auto
  obtain g0 g1 g2 g3 g4 g5 g6 g7 where g: "?c 48 = [g0,g1,g2,g3,g4,g5,g6,g7]"
    using list_of_length_8[OF l[of 48]] by auto
  obtain h0 h1 h2 h3 h4 h5 h6 h7 where h: "?c 56 = [h0,h1,h2,h3,h4,h5,h6,h7]"
    using list_of_length_8[OF l[of 56]] by auto
  have s: "s = [a0,a1,a2,a3,a4,a5,a6,a7, b0,b1,b2,b3,b4,b5,b6,b7, c0,c1,c2,c3,c4,c5,c6,c7,
                d0,d1,d2,d3,d4,d5,d6,d7, e0,e1,e2,e3,e4,e5,e6,e7, f0,f1,f2,f3,f4,f5,f6,f7,
                g0,g1,g2,g3,g4,g5,g6,g7, h0,h1,h2,h3,h4,h5,h6,h7]"
    using split_into_8_groups[OF assms] unfolding a b c d e f g h by simp
  show ?thesis
    by (subst (1 2) s) (simp add: stratum_prevhash_to_blockchain_def py_slice_def upt_conv_Cons)
qed

text \<open>
  Claim C4, as the spec states it, does not hold of the code: on the wire-order hash
  \<open>00010203 04050607 ... 1c1d1e1f\<close> the result is not the fully byte-reversed string
  \<open>1f1e1d1c ... 03020100\<close>; and a 64-character input is reordered whether or not its
  characters are hexadecimal digits (here 56 times \<open>z\<close> followed by \<open>00000000\<close>).
\<close>

theorem prevhash_not_fully_byte_reversed:
  "stratum_prevhash_to_blockchain
     ''000102030405060708090a0b0c0d0e0f101112131415161718191a1b1c1d1e1f''
   \<noteq> ''1f1e1d1c1b1a191817161514131211100f0e0d0c0b0a09080706050403020100''
   \<and> stratum_prevhash_to_blockchain
     ''zzzzzzzzzzzzzzzzzzzzzzzzzzzzzzzzzzzzzzzzzzzzzzzzzzzzzzzz00000000''
   \<noteq> ''zzzzzzzzzzzzzzzzzzzzzzzzzzzzzzzzzzzzzzzzzzzzzzzzzzzzzzzz00000000''"
  by (simp add: stratum_prevhash_to_blockchain_def py_slice_def upt_conv_Cons)

text \<open>
  Claim C4, amended: applied to the 64-character wire-order hash formed of the eight
  sequential 4-byte groups \<open>00010203 04050607 ... 1c1d1e1f\<close>, the reorderer returns the
  eight groups in reverse order, the bytes inside each group in their original order
  (\<open>1c1d1e1f 18191a1b ... 00010203\<close>); and every input whose length is not exactly 64
  characters is returned unchanged.
\<close>

theorem prevhash_reorders_groups:
  "stratum_prevhash_to_blockchain
     ''000102030405060708090a0b0c0d0e0f101112131415161718191a1b1c1d1e1f''
   = ''1c1d1e1f18191a1b14151617101112130c0d0e0f08090a0b0405060700010203''
   \<and> (\<forall>s. length s \<noteq> 64 \<longrightarrow> stratum_prevhash_to_blockchain s = s)"
  by (simp add: stratum_prevhash_to_blockchain_def py_slice_def upt_conv_Cons)

theorem prevhash_reorders_groups_witness:
  "length ''1d00ffff'' \<noteq> 64 \<and> stratum_prevhash_to_blockchain ''1d00ffff'' = ''1d00ffff''"
  using prevhash_reorders_groups by simp

section \<open>Properties of the coinbase field decoders\<close>

lemma raises_only_ude_Inl: "raises_only_ude (Inl UnicodeDecodeError)"
  by (simp add: raises_only_ude_def)

lemma raises_only_ude_map: "raises_only_ude r \<Longrightarrow> raises_only_ude (map_sum id f r)"
  by (cases r) (simp_all add: raises_only_ude_def)

lemma raises_only_ude_if:
  "(c \<Longrightarrow> raises_only_ude a) \<Longrightarrow> (\<not> c \<Longrightarrow> raises_only_ude b)
   \<Longrightarrow> raises_only_ude (if c then a else b)"
  by simp

lemma raises_only_ude_case:
  "raises_only_ude g \<Longrightarrow> (\<And>x xs. l = x # xs \<Longrightarrow> raises_only_ude (f x xs))
   \<Longrightarrow> raises_only_ude (case l of [] \<Rightarrow> g | x # xs \<Rightarrow> f x xs)"
  by (cases l) simp_all

text \<open>The UTF-8 decoder raises nothing but \<open>UnicodeDecodeError\<close>, which the handler catches.\<close>

lemma utf8_decode_raises_only_ude: "raises_only_ude (utf8_decode bs)"
proof (induction bs rule: length_induct)
  case (1 xs)
  show ?case
  proof (cases xs)
    case Nil
    then show ?thesis by (simp add: raises_only_ude_def)
  next
    case (Cons b bs)
    have ih: "\<And>r. length r < length (b # bs) \<Longrightarrow> raises_only_ude (utf8_decode r)"
      using 1 Cons by simp
    show ?thesis
      unfolding Cons utf8_decode.simps
      by (intro raises_only_ude_if raises_only_ude_case raises_only_ude_map
            raises_only_ude_Inl ih) simp_all
  qed
qed

lemma utf8_decode_error: "utf8_decode bs = Inl e \<Longrightarrow> e = UnicodeDecodeError"
  using utf8_decode_raises_only_ude[of bs] by (simp add: raises_only_ude_def)

lemma decode_with_fallback_total: "decode_with_fallback raw = Inr (decode_text raw)"
  by (auto simp: decode_with_fallback_def decode_text_def split: sum.splits
      dest: utf8_decode_error)

lemma from_bytes_little_nonneg: "0 \<le> from_bytes_little bs"
  unfolding from_bytes_little_def by (induction bs) auto

lemma parse_block_height_char:
  "parse_block_height script =
     Inr (if script \<noteq> [] \<and> 1 \<le> unat (hd script) \<and> unat (hd script) \<le> 8
             \<and> 1 + unat (hd script) \<le> length script
          then Some (from_bytes_little (py_slice script 1 (1 + unat (hd script))))
          else None)"
  by (cases script) (auto simp: parse_block_height_def py_index_def Let_def)

lemma parse_block_height_fixture:
  "parse_block_height ([3, 0x22, 0x0c, 0x0a] @ tag) = Inr (Some 0x0a0c22)"
  by (simp add: parse_block_height_def py_index_def py_slice_def from_bytes_little_def)

lemma parse_coinbase_tag_fixture:
  "parse_coinbase_tag U W ([3, 0x22, 0x0c, 0x0a] @ tag) =
     Inr (py_strip W (filter (\<lambda>c. isprintable U c \<or> c = 32) (decode_text tag)), tag)"
proof (cases tag)
  case Nil
  then show ?thesis
    by (simp add: parse_coinbase_tag_def py_index_def decode_text_def py_strip_def)
next
  case (Cons a list)
  then show ?thesis
    by (simp add: parse_coinbase_tag_def py_index_def decode_with_fallback_total Let_def
          del: utf8_decode.simps)
qed

text \<open>
  Claim C8, as the spec states it, does not hold of the code: after the height push
  \<open>03 22 0c 0a\<close>, the tag bytes \<open>41 20\<close> (the letter A and a space) are valid UTF-8 and
  decode to those two characters, but the reported tag text is the single letter A: the
  trailing space is trimmed.
\<close>

theorem coinbase_tag_is_not_plain_utf8:
  "utf8_decode [0x41, 0x20] = Inr [0x41, 0x20]
   \<and> parse_coinbase_tag (\<lambda>_. False) (\<lambda>_. False) [3, 0x22, 0x0c, 0x0a, 0x41, 0x20]
       = Inr ([0x41], [0x41, 0x20])"
  by (simp add: parse_coinbase_tag_def py_index_def decode_with_fallback_def py_strip_def
        isprintable_def isspace_def)

text \<open>
  Claim C8, amended: for every unlock script whose byte 0 is a push length \<open>h\<close> with
  \<open>1 \<le> h \<le> 8\<close> and with at least \<open>h\<close> bytes following, the extractor reports bytes
  \<open>1..1+h\<close>, read little-endian, as the block height, and otherwise (the empty script
  included) reports the height as absent; in particular the script \<open>03 22 0c 0a\<close>
  followed by any tag bytes reports height \<open>0x0a0c22\<close>, and its tag text is the UTF-8
  decoding of the tag bytes (their Latin-1 decoding when they are not valid UTF-8) with
  every non-printable character other than the space removed and the surrounding
  whitespace trimmed; the raw tag bytes are returned untouched beside it.
\<close>

theorem coinbase_height_and_tag:
  "parse_block_height script =
     Inr (if script \<noteq> [] \<and> 1 \<le> unat (hd script) \<and> unat (hd script) \<le> 8
             \<and> 1 + unat (hd script) \<le> length script
          then Some (from_bytes_little (py_slice script 1 (1 + unat (hd script))))
          else None)
   \<and> parse_block_height ([3, 0x22, 0x0c, 0x0a] @ tag) = Inr (Some 0x0a0c22)
   \<and> parse_coinbase_tag U W ([3, 0x22, 0x0c, 0x0a] @ tag) =
       Inr (py_strip W (filter (\<lambda>c. isprintable U c \<or> c = 32) (decode_text tag)), tag)"
  using parse_block_height_char parse_block_height_fixture parse_coinbase_tag_fixture
  by blast

theorem coinbase_height_and_tag_witness:
  "parse_block_height [3, 0x22, 0x0c, 0x0a, 0x2f, 0x70, 0x2f] = Inr (Some 658466)
   \<and> parse_coinbase_tag (\<lambda>_. False) (\<lambda>_. False) [3, 0x22, 0x0c, 0x0a, 0x2f, 0x70, 0x2f]
       = Inr ([0x2f, 0x70, 0x2f], [0x2f, 0x70, 0x2f])"
  using coinbase_height_and_tag[of "[3, 0x22, 0x0c, 0x0a, 0x2f, 0x70, 0x2f]" "[0x2f, 0x70, 0x2f]"
          "\<lambda>_. False" "\<lambda>_. False"]
  by (simp add: decode_text_def py_strip_def isprintable_def isspace_def py_slice_def
        from_bytes_little_def)

text \<open>
  Claim C10: the coinbase field extractors are total on arbitrary bytes. For every byte
  sequence \<open>parse_block_height\<close> returns (raising nothing) either a non-negative integer
  or the absent height, and \<open>parse_coinbase_tag\<close> returns (raising nothing) a pair of
  text and raw bytes; a script shorter than 2 bytes yields the absent height and the
  empty tag.
\<close>

theorem coinbase_extractors_total:
  "(\<exists>h. parse_block_height script = Inr h \<and> (case h of None \<Rightarrow> True | Some n \<Rightarrow> 0 \<le> n))
   \<and> (\<exists>text raw. parse_coinbase_tag U W script = Inr (text, raw))
   \<and> (length script < 2 \<longrightarrow>
        parse_block_height script = Inr None \<and> parse_coinbase_tag U W script = Inr ([], []))"
  by (simp add: parse_block_height_def parse_coinbase_tag_def py_index_def Let_def
        from_bytes_little_nonneg decode_with_fallback_total)

theorem coinbase_extractors_total_witness:
  "length [3 :: byte] < 2 \<and> parse_block_height [3] = Inr None
   \<and> parse_coinbase_tag (\<lambda>_. False) (\<lambda>_. False) [3] = Inr ([], [])"
  using coinbase_extractors_total[of "[3]" "\<lambda>_. False" "\<lambda>_. False"] by simp

section \<open>Properties of the difficulty codec\<close>

lemma int16_digits_ok:
  "list_all (\<lambda>c. hex_digit c \<noteq> None) s \<Longrightarrow> \<exists>n. int16_digits acc s = Inr n"
  by (induction s arbitrary: acc) auto

text \<open>
  What the decoder does on a compact target that parses to \<open>nbits\<close>: with an exponent
  byte of 3 or more it computes the target \<open>c \<times> 2^(8 \<times> (e - 3))\<close> and returns
  \<open>('N/A', 0.0)\<close> when that is not positive; with an exponent byte below 3 the shift
  count \<open>8 * (exp - 3)\<close> is negative and the shift raises \<open>ValueError\<close>.
\<close>

lemma nbits_to_difficulty_cases:
  assumes "py_int16 s = Inr nbits"
  shows "nbits_to_difficulty s =
     (let e = drop_bit 24 nbits;
          c = (if nbits AND 0x00800000 \<noteq> 0 then - (nbits AND 0x007fffff)
               else nbits AND 0x007fffff)
      in if e < 3 then Inl ValueError
         else if c * 2 ^ (8 * nat (e - 3)) \<le> 0 then Inr NotAvailable
         else Inr (Difficulty (c * 2 ^ (8 * nat (e - 3)))))"
proof (cases "drop_bit 24 nbits < 3")
  case True
  then show ?thesis
    using assms by (simp add: nbits_to_difficulty_def py_lshift_def Let_def)
next
  case False
  then have "nat (8 * (drop_bit 24 nbits - 3)) = 8 * nat (drop_bit 24 nbits - 3)"
    by (simp add: nat_mult_distrib)
  with False show ?thesis
    using assms
    by (simp add: nbits_to_difficulty_def py_lshift_def Let_def push_bit_eq_mult)
qed

text \<open>
  Claim C3 fails on the code at every compact target whose exponent byte is below 3:
  the decoder raises \<open>ValueError\<close> (negative shift count) where the claim says that it
  returns a result. Two such inputs: \<open>02000001\<close> and \<open>00000000\<close>.
\<close>

theorem nbits_small_exponent_raises:
  "nbits_to_difficulty ''02000001'' = Inl ValueError
   \<and> nbits_to_difficulty ''00000000'' = Inl ValueError"
  by (simp add: nbits_to_difficulty_def py_int16_def hex_digit_def py_lshift_def)

lemma nbits_difficulty_1_fixture:
  "nbits_to_difficulty ''1d00ffff'' =
     Inr (Difficulty 0x00000000FFFF0000000000000000000000000000000000000000000000000000)"
  by (simp add: nbits_to_difficulty_def py_int16_def hex_digit_def py_lshift_def)

section \<open>Properties of the CashAddr encoder\<close>

subsection \<open>Bit repacking returns, and its digits fit the target width\<close>

lemma convert_bits_while_returns:
  assumes "0 < to_bits"
  shows "\<exists>b r. convert_bits_while acc bits to_bits maxv ret = Some (b, ret @ r)
               \<and> (\<forall>d\<in>set r. \<exists>x. d = x AND maxv)"
proof (induction bits arbitrary: ret rule: less_induct)
  case (less bits)
  show ?case
  proof (cases "to_bits \<le> bits")
    case True
    then have "bits - to_bits < bits" using assms by simp
    from less[OF this, of "ret @ [drop_bit (bits - to_bits) acc AND maxv]"]
    obtain b r where
      "convert_bits_while acc (bits - to_bits) to_bits maxv
         (ret @ [drop_bit (bits - to_bits) acc AND maxv])
       = Some (b, (ret @ [drop_bit (bits - to_bits) acc AND maxv]) @ r)"
      and "\<forall>d\<in>set r. \<exists>x. d = x AND maxv"
      by blast
    with True show ?thesis
      by (subst convert_bits_while.simps) (auto intro!: exI[of _ "(drop_bit (bits - to_bits) acc AND maxv) # r"])
  next
    case False
    then show ?thesis by (subst convert_bits_while.simps) simp
  qed
qed

lemma convert_bits_for_returns:
  assumes "0 < to_bits"
  shows "\<exists>a b r. convert_bits_for data from_bits to_bits maxv acc bits ret = Some (a, b, ret @ r)
                 \<and> (\<forall>d\<in>set r. \<exists>x. d = x AND maxv)"
proof (induction data arbitrary: acc bits ret)
  case Nil
  show ?case by simp
next
  case (Cons v data)
  obtain b r where w: "convert_bits_while (push_bit from_bits acc OR v) (bits + from_bits) to_bits maxv ret
      = Some (b, ret @ r)" and r: "\<forall>d\<in>set r. \<exists>x. d = x AND maxv"
    using convert_bits_while_returns[OF assms] by blast
  obtain a' b' r' where f: "convert_bits_for data from_bits to_bits maxv (push_bit from_bits acc OR v) b (ret @ r)
      = Some (a', b', (ret @ r) @ r')" and r': "\<forall>d\<in>set r'. \<exists>x. d = x AND maxv"
    using Cons by blast
  show ?case
    using w f r r' by (auto simp: Let_def intro!: exI[of _ "r @ r'"])
qed

lemma and_mask_range: "0 \<le> (x::int) AND (push_bit n 1 - 1) \<and> x AND (push_bit n 1 - 1) < 2 ^ n"
proof -
  have "x AND (push_bit n 1 - 1) = take_bit n x"
    by (simp add: take_bit_eq_mask mask_eq_exp_minus_1)
  then show ?thesis by simp
qed

lemma convert_bits_returns:
  assumes "0 < to_bits"
  shows "\<exists>payload. convert_bits data from_bits to_bits pad = Some payload
                   \<and> (\<forall>d\<in>set payload. 0 \<le> d \<and> d < 2 ^ to_bits)"
proof -
  let ?m = "push_bit to_bits 1 - 1 :: int"
  obtain a b r where f: "convert_bits_for data from_bits to_bits ?m 0 0 [] = Some (a, b, r)"
    and r: "\<forall>d\<in>set r. \<exists>x. d = x AND ?m"
    using convert_bits_for_returns[OF assms, of data from_bits ?m 0 0 "[]"] by auto
  have "\<forall>d\<in>set r. 0 \<le> d \<and> d < 2 ^ to_bits"
    using r and_mask_range[of _ to_bits] by metis
  then show ?thesis
    using f and_mask_range[of "push_bit (to_bits - b) a" to_bits]
    by (simp add: convert_bits_def Let_def)
qed

subsection \<open>Alphabet lookup never fails on 5-bit digits\<close>

lemma map_raising_ok:
  "(\<And>x. x \<in> set xs \<Longrightarrow> f x = Inr (g x)) \<Longrightarrow> map_raising f xs = Inr (map g xs)"
  by (induction xs) simp_all

lemma charset_lookup_ok:
  "0 \<le> d \<Longrightarrow> d < 32 \<Longrightarrow> py_getitem CASHADDR_CHARSET d = Inr (CASHADDR_CHARSET ! nat d)"
  by (simp add: py_getitem_def CASHADDR_CHARSET_def)

subsection \<open>The checksum windows\<close>

lemma and_31_mod: "(x::int) AND 0x1f = x mod 32"
proof -
  have "(x::int) AND mask 5 = x mod 2 ^ 5"
    by (simp only: take_bit_eq_mod flip: take_bit_eq_mask)
  then show ?thesis by (simp add: mask_eq_exp_minus_1)
qed

lemma window_step: "32 * drop_bit (k + 5) (p::int) + (drop_bit k p AND 0x1f) = drop_bit k p"
proof -
  have "drop_bit (k + 5) p = drop_bit k p div 32"
    by (simp add: drop_bit_eq_div power_add zdiv_zmult2_eq)
  then show ?thesis by (simp add: and_31_mod)
qed

text \<open>
  Read most significant first as a number in base 32, the eight 5-bit windows of a
  40-bit value give the value back.
\<close>

lemma windows_reassemble:
  assumes "0 \<le> p" "p < 2 ^ 40"
  shows "foldl (\<lambda>a d. 32 * a + d) 0 (map (\<lambda>i. drop_bit (5 * (7 - i)) p AND 0x1f) [0..<8])
         = (p::int)"
proof -
  have top: "drop_bit 40 p = 0" using assms by (simp add: drop_bit_eq_div)
  have l: "map (\<lambda>i. drop_bit (5 * (7 - i)) p AND 0x1f) [0..<8] =
     [drop_bit 35 p AND 0x1f, drop_bit 30 p AND 0x1f, drop_bit 25 p AND 0x1f,
      drop_bit 20 p AND 0x1f, drop_bit 15 p AND 0x1f, drop_bit 10 p AND 0x1f,
      drop_bit 5 p AND 0x1f, drop_bit 0 p AND 0x1f]"
    by (simp add: upt_rec)
  show ?thesis
    unfolding l foldl.simps
    using window_step[of 35 p] window_step[of 30 p] window_step[of 25 p] window_step[of 20 p]
      window_step[of 15 p] window_step[of 10 p] window_step[of 5 p] window_step[of 0 p] top
    by simp
qed

subsection \<open>The source's polymod is the 40-bit linear-feedback computation\<close>

lemma bit_tests:
  "((x::int) AND 0x01 \<noteq> 0) = bit x 0"
  "(x AND 0x02 \<noteq> 0) = bit x 1"
  "(x AND 0x04 \<noteq> 0) = bit x 2"
  "(x AND 0x08 \<noteq> 0) = bit x 3"
  "(x AND 0x10 \<noteq> 0) = bit x 4"
  using and_exp_eq_0_iff_not_bit[of x 0] and_exp_eq_0_iff_not_bit[of x 1]
    and_exp_eq_0_iff_not_bit[of x 2] and_exp_eq_0_iff_not_bit[of x 3]
    and_exp_eq_0_iff_not_bit[of x 4]
  by simp_all

lemma upt_0_5: "[0..<5] = [0, 1, 2, 3, 4]"
  by (simp add: upt_rec)

lemma uint_cond_xor:
  "uint (if b then (s::40 word) XOR g else s) = (if b then uint s XOR uint g else uint s)"
  by (simp add: uint_xor)

lemma polymod_step_word:
  "polymod_step (uint (w::40 word)) (uint (d::40 word)) = uint (lfsr_step w d)"
proof -
  have sh: "push_bit 5 (uint w AND 0x07ffffffff) = uint (push_bit 5 w)"
  proof -
    have "uint w AND mask 35 = take_bit 35 (uint w)" by (simp add: take_bit_eq_mask)
    moreover have "uint (push_bit 5 w) = take_bit 40 (push_bit 5 (uint w))"
      by (simp add: unsigned_push_bit_eq)
    moreover have "take_bit 40 (push_bit 5 (uint w)) = push_bit 5 (take_bit 35 (uint w))"
      by (simp add: take_bit_push_bit)
    ultimately show ?thesis by (simp add: mask_eq_exp_minus_1)
  qed
  have "take_bit 40 (uint w) = uint w"
    using uint_lt2p[of w] by (intro take_bit_int_eq_self) simp_all
  then have tp: "drop_bit 35 (uint w) = uint (drop_bit 35 w)"
    by (simp add: unsigned_drop_bit_eq)
  have g: "CASHADDR_GENERATORS ! 0 = 0x98f2bc8e61" "CASHADDR_GENERATORS ! 1 = 0x79b76d99e2"
    "CASHADDR_GENERATORS ! 2 = 0xf33e5fb3c4" "CASHADDR_GENERATORS ! 3 = 0xae2eabe2a8"
    "CASHADDR_GENERATORS ! 4 = 0x1e4f43e470"
    by (simp_all add: CASHADDR_GENERATORS_def)
  show ?thesis
    unfolding polymod_step_def lfsr_step_def Let_def sh tp bit_tests upt_0_5 foldl.simps g
      uint_cond_xor bit_uint_iff uint_xor
    by simp
qed

lemma foldl_polymod_word:
  "foldl polymod_step (uint (w::40 word)) (map uint (ds::40 word list))
   = uint (foldl lfsr_step w ds)"
  by (induction ds arbitrary: w) (simp_all add: polymod_step_word)

lemma cashaddr_polymod_word:
  "cashaddr_polymod (map uint (ds::40 word list)) = uint (checksum_polymod ds)"
  using foldl_polymod_word[of 1 ds]
  by (simp add: cashaddr_polymod_def checksum_polymod_def uint_xor)

lemma five_bit_values_as_words:
  assumes "\<forall>d\<in>set values. 0 \<le> d \<and> d < 32"
  shows "map uint (map word_of_int values :: 40 word list) = values"
proof -
  have "uint (word_of_int d :: 40 word) = d" if "d \<in> set values" for d
  proof -
    have "0 \<le> d" "d < 2 ^ 40" using assms that by auto
    then show ?thesis by (simp add: uint_word_of_int take_bit_int_eq_self)
  qed
  then show ?thesis by (simp add: map_idI)
qed

lemma cashaddr_polymod_refines:
  assumes "\<forall>d\<in>set values. 0 \<le> d \<and> d < 32"
  shows "cashaddr_polymod values = uint (checksum_polymod (map word_of_int values))"
  using cashaddr_polymod_word[of "map word_of_int values"] five_bit_values_as_words[OF assms]
  by simp

lemma cashaddr_polymod_40_bits:
  assumes "\<forall>d\<in>set values. 0 \<le> d \<and> d < 32"
  shows "0 \<le> cashaddr_polymod values \<and> cashaddr_polymod values < 2 ^ 40"
  using uint_lt2p[of "checksum_polymod (map word_of_int values)"]
  by (simp add: cashaddr_polymod_refines[OF assms])

lemma hrp_expand_five_bit: "\<forall>d\<in>set (cashaddr_hrp_expand prefix). 0 \<le> d \<and> d < 32"
proof -
  have "0 \<le> (of_char c :: int) AND 0x1f \<and> (of_char c :: int) AND 0x1f < 32" for c
    by (simp add: and_31_mod)
  then show ?thesis by (auto simp: cashaddr_hrp_expand_def)
qed

subsection \<open>The encoder\<close>

lemma hash160_to_cashaddr_structure:
  "\<exists>payload checksum.
      convert_bits ((if script_type = ''P2PKH'' then 0x00 else 0x08) # map uint hash160) 8 5 True
        = Some payload
      \<and> (\<forall>d\<in>set payload. 0 \<le> d \<and> d < 32)
      \<and> length checksum = 8
      \<and> (\<forall>d\<in>set checksum. 0 \<le> d \<and> d < 32)
      \<and> foldl (\<lambda>a d. 32 * a + d) 0 checksum
          = cashaddr_polymod (cashaddr_hrp_expand ''bitcoincash'' @ payload @ replicate 8 0)
      \<and> hash160_to_cashaddr hash160 script_type
          = Some (Inr (''bitcoincash'' @ '':'' @ map (\<lambda>d. CASHADDR_CHARSET ! nat d)
                                                   (payload @ checksum)))"
proof -
  let ?v = "(if script_type = ''P2PKH'' then 0x00 else 0x08) :: int"
  obtain payload where p: "convert_bits (?v # map uint hash160) 8 5 True = Some payload"
    and pr: "\<forall>d\<in>set payload. 0 \<le> d \<and> d < 32"
    using convert_bits_returns[of 5 "?v # map uint hash160" 8 True] by auto
  let ?vals = "cashaddr_hrp_expand ''bitcoincash'' @ payload @ replicate 8 0"
  let ?p = "cashaddr_polymod ?vals"
  let ?checksum = "map (\<lambda>i. drop_bit (5 * (7 - i)) ?p AND 0x1f) [0..<8]"
  have vr: "\<forall>d\<in>set ?vals. 0 \<le> d \<and> d < 32"
    using pr hrp_expand_five_bit[of "''bitcoincash''"] by auto
  have pm: "0 \<le> ?p" "?p < 2 ^ 40"
    using cashaddr_polymod_40_bits[OF vr] by simp_all
  have cr: "\<forall>d\<in>set ?checksum. 0 \<le> d \<and> d < 32"
    by (simp add: and_31_mod)
  have look: "map_raising (py_getitem CASHADDR_CHARSET) (payload @ ?checksum)
      = Inr (map (\<lambda>d. CASHADDR_CHARSET ! nat d) (payload @ ?checksum))"
  proof (rule map_raising_ok)
    fix x assume "x \<in> set (payload @ ?checksum)"
    then have "0 \<le> x \<and> x < 32" using pr cr by auto
    then show "py_getitem CASHADDR_CHARSET x = Inr (CASHADDR_CHARSET ! nat x)"
      by (simp add: charset_lookup_ok)
  qed
  have enc: "hash160_to_cashaddr hash160 script_type
      = Some (Inr (''bitcoincash'' @ '':'' @ map (\<lambda>d. CASHADDR_CHARSET ! nat d)
                                               (payload @ ?checksum)))"
    unfolding hash160_to_cashaddr_def Let_def p option.case look by simp
  have "length ?checksum = 8" by simp
  moreover have "foldl (\<lambda>a d. 32 * a + d) 0 ?checksum = ?p"
    using windows_reassemble[OF pm] .
  ultimately show ?thesis
    using p pr cr enc by blast
qed

text \<open>
  Claim C7. For every sequence of 5-bit values, the source's polymod (on unbounded
  integers) is the linear-feedback computation over a 40-bit state: initial state 1, at
  each step the state shifted by 5 bits takes in the value and each of the five generator
  constants whose bit is set among the top 5 bits of the old state, and the final state is
  exclusive-ORed with 1. And the address encoder returns \<open>prefix\<close>, \<open>:\<close>, then the
  payload digits and 8 checksum digits, every digit mapped through the 32-character
  alphabet, where the payload digits are the 5-bit groups of the version byte and the
  hash, and the checksum digits are the eight 5-bit windows of the 40-bit polymod of
  (expanded prefix, payload, 8 zeros), most significant window first: read as a number in
  base 32 they are that polymod.
\<close>

theorem cashaddr_polymod_and_encoding:
  "((\<forall>d\<in>set values. 0 \<le> d \<and> d < 32) \<longrightarrow>
      cashaddr_polymod values = uint (checksum_polymod (map word_of_int values)))
   \<and> (\<exists>payload checksum.
        convert_bits ((if script_type = ''P2PKH'' then 0x00 else 0x08) # map uint hash160) 8 5 True
          = Some payload
        \<and> (\<forall>d\<in>set payload. 0 \<le> d \<and> d < 32)
        \<and> length checksum = 8
        \<and> (\<forall>d\<in>set checksum. 0 \<le> d \<and> d < 32)
        \<and> foldl (\<lambda>a d. 32 * a + d) 0 checksum
            = cashaddr_polymod (cashaddr_hrp_expand ''bitcoincash'' @ payload @ replicate 8 0)
        \<and> hash160_to_cashaddr hash160 script_type
            = Some (Inr (''bitcoincash'' @ '':'' @ map (\<lambda>d. CASHADDR_CHARSET ! nat d)
                                                     (payload @ checksum))))"
  using cashaddr_polymod_refines[of "values"] hash160_to_cashaddr_structure[of script_type hash160]
  by blast

theorem cashaddr_polymod_and_encoding_witness:
  "cashaddr_polymod [2, 0, 31] = uint (checksum_polymod [2, 0, 31])
   \<and> hash160_to_cashaddr
        [0x75, 0x1e, 0x76, 0xe8, 0x19, 0x91, 0x96, 0xd4, 0x54, 0x94,
         0x1c, 0x45, 0xd1, 0xb3, 0xa3, 0x23, 0xf1, 0x43, 0x3b, 0xd6] ''P2PKH''
      = Some (Inr ''bitcoincash:qp63uahgrxged4z5jswyt5dn5v3lzsem6cy4spdc2h'')"
proof -
  have a: "cashaddr_polymod [2, 0, 31] = uint (checksum_polymod [2, 0, 31])"
    using cashaddr_polymod_and_encoding[of "[2, 0, 31]"] by simp
  have b: "hash160_to_cashaddr
        [0x75, 0x1e, 0x76, 0xe8, 0x19, 0x91, 0x96, 0xd4, 0x54, 0x94,
         0x1c, 0x45, 0xd1, 0xb3, 0xa3, 0x23, 0xf1, 0x43, 0x3b, 0xd6] ''P2PKH''
      = Some (Inr ''bitcoincash:qp63uahgrxged4z5jswyt5dn5v3lzsem6cy4spdc2h'')"
    by code_simp
  show ?thesis using a b by simp
qed

section \<open>Properties of the script classifier\<close>

lemma p2pkh_template:
  assumes "length h = 20"
  shows "\<exists>ca. hash160_to_cashaddr h ''P2PKH'' = Some (Inr ca)
           \<and> parse_script_pubkey sha256 ripemd160 ([0x76, 0xa9, 0x14] @ h @ [0x88, 0xac])
             = Some (Inr (''P2PKH'',
                          Some \<lparr>cashaddr = ca, legacy = hash160_to_legacy sha256 h ''P2PKH''\<rparr>,
                          bytes_hex h))"
proof -
  obtain ca where ca: "hash160_to_cashaddr h ''P2PKH'' = Some (Inr ca)"
    using hash160_to_cashaddr_structure[of "''P2PKH''" h] by blast
  have "py_slice ([0x76, 0xa9, 0x14] @ h @ [0x88, 0xac]) 3 23 = h"
    using assms by (simp add: py_slice_def)
  moreover have "drop 23 ([0x76, 0xa9, 0x14] @ h @ [0x88, 0xac :: byte]) = [0x88, 0xac]"
    using assms by simp
  moreover have "py_slice ([0x76, 0xa9, 0x14] @ h @ [0x88, 0xac :: byte]) 0 3 = [0x76, 0xa9, 0x14]"
    by (simp add: py_slice_def)
  ultimately have "parse_script_pubkey sha256 ripemd160 ([0x76, 0xa9, 0x14] @ h @ [0x88, 0xac])
             = Some (Inr (''P2PKH'',
                          Some \<lparr>cashaddr = ca, legacy = hash160_to_legacy sha256 h ''P2PKH''\<rparr>,
                          bytes_hex h))"
    using assms ca by (simp add: parse_script_pubkey_def address_dict_def)
  with ca show ?thesis by blast
qed

text \<open>
  Claim C6. The classifier tries its templates in the order of the source and returns at
  the first that matches. Every 25-byte script \<open>76 a9 14 <20 bytes> 88 ac\<close> classifies as
  \<open>P2PKH\<close>: the hash it extracts is exactly the 20 embedded bytes (the extra hex is their
  hex form, and both addresses are those of these bytes). The 1-byte script \<open>6a\<close>
  classifies as \<open>OP_RETURN\<close> with no address and the empty payload.
\<close>

theorem script_classification:
  "(length h = 20 \<longrightarrow>
      (\<exists>ca. hash160_to_cashaddr h ''P2PKH'' = Some (Inr ca)
          \<and> parse_script_pubkey sha256 ripemd160 ([0x76, 0xa9, 0x14] @ h @ [0x88, 0xac])
            = Some (Inr (''P2PKH'',
                         Some \<lparr>cashaddr = ca, legacy = hash160_to_legacy sha256 h ''P2PKH''\<rparr>,
                         bytes_hex h))))
   \<and> parse_script_pubkey sha256 ripemd160 [0x6a] = Some (Inr (''OP_RETURN'', None, ''''))"
proof -
  have "parse_script_pubkey sha256 ripemd160 [0x6a] = Some (Inr (''OP_RETURN'', None, ''''))"
    by (simp add: parse_script_pubkey_def py_slice_def bytes_hex_def)
  then show ?thesis using p2pkh_template[of h sha256 ripemd160] by blast
qed

theorem script_classification_witness:
  "length [0x75, 0x1e, 0x76, 0xe8, 0x19, 0x91, 0x96, 0xd4, 0x54, 0x94,
           0x1c, 0x45, 0xd1, 0xb3, 0xa3, 0x23, 0xf1, 0x43, 0x3b, 0xd6 :: byte] = 20
   \<and> parse_script_pubkey (\<lambda>_. []) (\<lambda>_. [])
       [0x76, 0xa9, 0x14,
        0x75, 0x1e, 0x76, 0xe8, 0x19, 0x91, 0x96, 0xd4, 0x54, 0x94,
        0x1c, 0x45, 0xd1, 0xb3, 0xa3, 0x23, 0xf1, 0x43, 0x3b, 0xd6,
        0x88, 0xac]
     = Some (Inr (''P2PKH'',
                  Some \<lparr>cashaddr = ''bitcoincash:qp63uahgrxged4z5jswyt5dn5v3lzsem6cy4spdc2h'',
                        legacy = hash160_to_legacy (\<lambda>_. [])
                          [0x75, 0x1e, 0x76, 0xe8, 0x19, 0x91, 0x96, 0xd4, 0x54, 0x94,
                           0x1c, 0x45, 0xd1, 0xb3, 0xa3, 0x23, 0xf1, 0x43, 0x3b, 0xd6] ''P2PKH''\<rparr>,
                  ''751e76e8199196d454941c45d1b3a323f1433bd6''))"
proof -
  let ?h = "[0x75, 0x1e, 0x76, 0xe8, 0x19, 0x91, 0x96, 0xd4, 0x54, 0x94,
             0x1c, 0x45, 0xd1, 0xb3, 0xa3, 0x23, 0xf1, 0x43, 0x3b, 0xd6] :: byte list"
  have c: "hash160_to_cashaddr ?h ''P2PKH''
           = Some (Inr ''bitcoincash:qp63uahgrxged4z5jswyt5dn5v3lzsem6cy4spdc2h'')"
    by code_simp
  have x: "bytes_hex ?h = ''751e76e8199196d454941c45d1b3a323f1433bd6''"
    by code_simp
  show ?thesis
    using script_classification[of ?h "\<lambda>_. []" "\<lambda>_. []"] unfolding c x by simp
qed

section \<open>Properties of the transaction parser: truncation\<close>

subsection \<open>Past the end of the buffer every reader that unpacks raises\<close>

lemma u32_overrun: "length data < pos \<Longrightarrow> u32 data pos = Inl StructError"
  by (simp add: u32_def read_def py_slice_def unpack_unsigned_def bind_exc_def)

lemma i32_overrun: "length data < pos \<Longrightarrow> i32 data pos = Inl StructError"
  by (simp add: i32_def read_def py_slice_def unpack_i32_def bind_exc_def)

lemma u64_overrun: "length data < pos \<Longrightarrow> u64 data pos = Inl StructError"
  by (simp add: u64_def read_def py_slice_def unpack_unsigned_def bind_exc_def)

lemma varint_overrun: "length data < pos \<Longrightarrow> varint data pos = Inl IndexError"
  by (simp add: varint_def py_index_def bind_exc_def)

lemma parse_outputs_overrun:
  "length data < pos \<Longrightarrow> overran (length data) (parse_outputs k data pos)"
  by (cases k) (simp_all add: overran_def u64_overrun bind_exc_def truncation_exc_def)

subsection \<open>Within the buffer the integer readers agree with the checked ones\<close>

lemma u32_agrees:
  "pos \<le> length data \<Longrightarrow> agrees (length data) (u32 data pos) (u32_checked data pos)"
  by (auto simp: agrees_def u32_def u32_checked_def read_def read_checked_def py_slice_def
        unpack_unsigned_def bind_exc_def truncation_exc_def)

lemma i32_agrees:
  "pos \<le> length data \<Longrightarrow> agrees (length data) (i32 data pos) (i32_checked data pos)"
  by (auto simp: agrees_def i32_def i32_checked_def read_def read_checked_def py_slice_def
        unpack_i32_def bind_exc_def signed32_def Let_def truncation_exc_def)

lemma u64_agrees:
  "pos \<le> length data \<Longrightarrow> agrees (length data) (u64 data pos) (u64_checked data pos)"
  by (auto simp: agrees_def u64_def u64_checked_def read_def read_checked_def py_slice_def
        unpack_unsigned_def bind_exc_def truncation_exc_def)

lemma varint_agrees:
  "pos \<le> length data \<Longrightarrow> agrees (length data) (varint data pos) (varint_checked data pos)"
  by (auto simp: agrees_def varint_def varint_checked_def read_def read_checked_def py_slice_def
        py_index_def unpack_unsigned_def bind_exc_def Let_def hd_drop_conv_nth
        take_Suc_conv_app_nth truncation_exc_def)

subsection \<open>Sequencing\<close>

lemma agrees_bind:
  assumes "agrees len a b"
    and "\<And>v p. a = Inr (v, p) \<Longrightarrow> p \<le> len \<Longrightarrow> agrees len (F v p) (G v p)"
  shows "agrees len (bind_exc a (\<lambda>(v, p). F v p)) (bind_exc b (\<lambda>(v, p). G v p))"
proof (cases a)
  case (Inl e)
  with assms(1) show ?thesis by (simp add: agrees_def bind_exc_def)
next
  case (Inr vp)
  obtain v p where vp: "vp = (v, p)" by (cases vp)
  from assms(1) Inr vp have "p \<le> len" "b = Inr (v, p)" by (simp_all add: agrees_def)
  with assms(2)[of v p] Inr vp show ?thesis by (simp add: bind_exc_def)
qed

lemma agrees_late_bind:
  assumes "agrees len a b"
    and "\<And>v p. a = Inr (v, p) \<Longrightarrow> p \<le> len \<Longrightarrow> agrees_late len (F v p) (G v p)"
  shows "agrees_late len (bind_exc a (\<lambda>(v, p). F v p)) (bind_exc b (\<lambda>(v, p). G v p))"
proof (cases a)
  case (Inl e)
  with assms(1) show ?thesis by (simp add: agrees_def agrees_late_def bind_exc_def)
next
  case (Inr vp)
  obtain v p where vp: "vp = (v, p)" by (cases vp)
  from assms(1) Inr vp have "p \<le> len" "b = Inr (v, p)" by (simp_all add: agrees_def)
  with assms(2)[of v p] Inr vp show ?thesis by (simp add: bind_exc_def)
qed

lemma agrees_after_late:
  assumes "agrees_late len a b"
    and "\<And>v p. a = Inr (v, p) \<Longrightarrow> p \<le> len \<Longrightarrow> agrees len (F v p) (G v p)"
    and "\<And>v p. len < p \<Longrightarrow> F v p = Inl StructError"
  shows "agrees len (bind_exc a (\<lambda>(v, p). F v p)) (bind_exc b (\<lambda>(v, p). G v p))"
proof (cases a)
  case (Inl e)
  with assms(1) show ?thesis by (simp add: agrees_def agrees_late_def bind_exc_def)
next
  case (Inr vp)
  obtain v p where vp: "vp = (v, p)" by (cases vp)
  show ?thesis
  proof (cases "p \<le> len")
    case True
    with assms(1) Inr vp have "b = Inr (v, p)" by (simp add: agrees_late_def)
    with assms(2)[of v p] Inr vp True show ?thesis by (simp add: bind_exc_def)
  next
    case False
    with assms(1) Inr vp have "b = Inl Truncated" by (simp add: agrees_late_def)
    with assms(3)[of p v] Inr vp False show ?thesis
      by (simp add: bind_exc_def agrees_def truncation_exc_def)
  qed
qed

lemma agrees_read:
  assumes "pos + n \<le> length data \<Longrightarrow>
             agrees (length data) (F (py_slice data pos (pos + n)) (pos + n))
                                  (G (py_slice data pos (pos + n)) (pos + n))"
    and "length data < pos + n \<Longrightarrow> F (py_slice data pos (pos + n)) (pos + n) = Inl StructError"
  shows "agrees (length data) (let (c, p) = read data pos n in F c p)
                              (bind_exc (read_checked data pos n) (\<lambda>(c, p). G c p))"
proof (cases "pos + n \<le> length data")
  case True
  with assms(1) show ?thesis by (simp add: read_def read_checked_def bind_exc_def)
next
  case False
  with assms(2) show ?thesis
    by (simp add: read_def read_checked_def bind_exc_def agrees_def truncation_exc_def)
qed

lemma agrees_late_read:
  assumes "pos + n \<le> length data \<Longrightarrow>
             agrees_late (length data) (F (py_slice data pos (pos + n)) (pos + n))
                                       (G (py_slice data pos (pos + n)) (pos + n))"
    and "length data < pos + n \<Longrightarrow> overran (length data) (F (py_slice data pos (pos + n)) (pos + n))"
  shows "agrees_late (length data) (let (c, p) = read data pos n in F c p)
                                   (bind_exc (read_checked data pos n) (\<lambda>(c, p). G c p))"
proof (cases "pos + n \<le> length data")
  case True
  with assms(1) show ?thesis by (simp add: read_def read_checked_def bind_exc_def)
next
  case False
  with assms(2) show ?thesis
    by (auto simp: read_def read_checked_def bind_exc_def agrees_late_def overran_def
          split: sum.splits)
qed

lemma agrees_return: "p \<le> len \<Longrightarrow> agrees len (Inr (v, p)) (Inr (v, p))"
  by (simp add: agrees_def)

lemma agrees_late_map:
  "agrees_late len a b \<Longrightarrow>
   agrees_late len (bind_exc a (\<lambda>(r, p). Inr (h r, p))) (bind_exc b (\<lambda>(r, p). Inr (h r, p)))"
  by (cases a) (auto simp: agrees_late_def bind_exc_def split: if_splits)

lemma overran_map:
  "overran len a \<Longrightarrow> overran len (bind_exc a (\<lambda>(r, p). Inr (h r, p)))"
  by (cases a) (auto simp: overran_def bind_exc_def)

subsection \<open>The loops and the whole parser\<close>

lemma parse_inputs_agrees:
  "pos \<le> length data \<Longrightarrow>
   agrees (length data) (parse_inputs k data pos) (parse_inputs_checked k data pos)"
proof (induction k arbitrary: pos)
  case 0
  then show ?case by (simp add: agrees_def)
next
  case (Suc k)
  show ?case
    unfolding parse_inputs.simps parse_inputs_checked.simps
    by (intro agrees_read agrees_bind u32_agrees varint_agrees Suc.IH agrees_return)
       (simp_all add: u32_overrun bind_exc_def)
qed

lemma parse_outputs_agrees:
  "pos \<le> length data \<Longrightarrow>
   agrees_late (length data) (parse_outputs k data pos) (parse_outputs_checked k data pos)"
proof (induction k arbitrary: pos)
  case 0
  then show ?case by (simp add: agrees_late_def)
next
  case (Suc k)
  show ?case
    unfolding parse_outputs.simps parse_outputs_checked.simps
    using Suc.prems
    by (intro agrees_late_map agrees_late_bind u64_agrees varint_agrees agrees_late_read
          Suc.IH overran_map parse_outputs_overrun)
       simp_all
qed

lemma parse_from_agrees:
  "agrees (length data) (parse_from data 0) (parse_from_checked data 0)"
  unfolding parse_from_def parse_from_checked_def
  apply (rule agrees_bind, rule i32_agrees, simp)
  apply (rule agrees_bind, rule varint_agrees, assumption)
  apply (rule agrees_bind, rule parse_inputs_agrees, assumption)
  apply (rule agrees_bind, rule varint_agrees, assumption)
  apply (rule agrees_after_late, rule parse_outputs_agrees, assumption)
   apply (rule agrees_bind, rule u32_agrees, assumption, rule agrees_return, assumption)
  apply (simp add: u32_overrun bind_exc_def)
  done

text \<open>A checked read returns exactly the bytes asked for.\<close>

lemma read_checked_exact:
  "read_checked data pos n = Inr (chunk, p) \<Longrightarrow> length chunk = n \<and> p = pos + n"
  by (auto simp: read_checked_def py_slice_def split: if_splits)

text \<open>
  Claim C2. For every input byte sequence: the source's \<open>parse\<close> raises (an
  \<open>IndexError\<close> or a \<open>struct.error\<close>, the two exceptions of a read at the end of the
  buffer) exactly when the decoder that checks every read against the end of the buffer
  reports a truncation, that is, when at some point the cursor would read past the end;
  and when it returns a record, it is the record of the checked decoder, every field of
  which was read in full.
\<close>

theorem parse_fails_on_truncation:
  "(case parse data of
      Inl e \<Rightarrow> truncation_exc e \<and> parse_checked data = Inl Truncated
    | Inr tx \<Rightarrow> parse_checked data = Inr tx)"
  using parse_from_agrees[of data]
  by (auto simp: parse_def parse_checked_def agrees_def split: sum.splits)

text \<open>Three truncated buffers: empty, cut after the version, cut inside the first input.\<close>

lemma parse_truncated_examples:
  "parse [] = Inl StructError
   \<and> parse [1, 0, 0, 0] = Inl IndexError
   \<and> parse [1, 0, 0, 0, 1, 0xaa] = Inl StructError
   \<and> parse_checked [1, 0, 0, 0, 1, 0xaa] = Inl Truncated"
  by (simp add: parse_def parse_from_def i32_def u32_def varint_def read_def py_slice_def
        py_index_def unpack_unsigned_def unpack_i32_def from_bytes_little_def bind_exc_def
        parse_checked_def parse_from_checked_def i32_checked_def varint_checked_def
        read_checked_def signed32_def)

section \<open>Properties of the transaction parser: the records it returns\<close>

lemma bind_exc_Inr: "bind_exc a f = Inr y \<longleftrightarrow> (\<exists>x. a = Inr x \<and> f x = Inr y)"
  by (cases a) (simp_all add: bind_exc_def)

lemma from_bytes_little_bound: "from_bytes_little bs < 256 ^ length bs"
proof (induction bs)
  case Nil
  show ?case by (simp add: from_bytes_little_def)
next
  case (Cons b bs)
  have "uint b < 256" using uint_lt2p[of b] by simp
  moreover have "from_bytes_little (b # bs) = uint b + 256 * from_bytes_little bs"
    by (simp add: from_bytes_little_def)
  ultimately show ?case using Cons by simp
qed

lemma read_checked_Inr:
  "read_checked data pos n = Inr (chunk, p) \<Longrightarrow> length chunk = n"
  by (auto simp: read_checked_def py_slice_def split: if_splits)

lemma u32_checked_range:
  assumes "u32_checked data pos = Inr (v, p)"
  shows "0 \<le> v \<and> v < 2 ^ 32"
proof -
  from assms obtain chunk where c: "read_checked data pos 4 = Inr (chunk, p)"
    and v: "v = from_bytes_little chunk"
    by (auto simp: u32_checked_def bind_exc_Inr)
  from read_checked_Inr[OF c] from_bytes_little_bound[of chunk] from_bytes_little_nonneg[of chunk]
  show ?thesis by (simp add: v)
qed

lemma u64_checked_range:
  assumes "u64_checked data pos = Inr (v, p)"
  shows "0 \<le> v \<and> v < 2 ^ 64"
proof -
  from assms obtain chunk where c: "read_checked data pos 8 = Inr (chunk, p)"
    and v: "v = from_bytes_little chunk"
    by (auto simp: u64_checked_def bind_exc_Inr)
  from read_checked_Inr[OF c] from_bytes_little_bound[of chunk] from_bytes_little_nonneg[of chunk]
  show ?thesis by (simp add: v)
qed

lemma i32_checked_range:
  assumes "i32_checked data pos = Inr (v, p)"
  shows "- (2 ^ 31) \<le> v \<and> v < 2 ^ 31"
proof -
  from assms obtain chunk where c: "read_checked data pos 4 = Inr (chunk, p)"
    and v: "v = signed32 (from_bytes_little chunk)"
    by (auto simp: i32_checked_def bind_exc_Inr)
  from read_checked_Inr[OF c] from_bytes_little_bound[of chunk] from_bytes_little_nonneg[of chunk]
  show ?thesis by (simp add: v signed32_def)
qed

lemma varint_checked_range:
  assumes "varint_checked data pos = Inr (n, p)"
  shows "0 \<le> n \<and> n < 2 ^ 64"
proof -
  from assms obtain first p1 where f: "read_checked data pos 1 = Inr (first, p1)"
    and r: "(if hd first < 0xfd then Inr (uint (hd first), p1)
             else bind_exc (read_checked data p1
                              (if hd first = 0xfd then 2 else if hd first = 0xfe then 4 else 8))
                    (\<lambda>(chunk, pos). Inr (from_bytes_little chunk, pos))) = Inr (n, p)"
    by (auto simp: varint_checked_def bind_exc_Inr Let_def)
  show ?thesis
  proof (cases "hd first < 0xfd")
    case True
    with r have "n = uint (hd first)" by simp
    then show ?thesis using uint_lt2p[of "hd first"] by simp
  next
    case False
    with r obtain chunk where
      c: "read_checked data p1 (if hd first = 0xfd then 2 else if hd first = 0xfe then 4 else 8)
          = Inr (chunk, p)" and n: "n = from_bytes_little chunk"
      by (auto simp: bind_exc_Inr)
    have "length chunk \<le> 8" using read_checked_Inr[OF c] by (simp split: if_splits)
    then have "(256::int) ^ length chunk \<le> 256 ^ 8" by (intro power_increasing) simp_all
    with from_bytes_little_bound[of chunk] from_bytes_little_nonneg[of chunk]
    show ?thesis by (simp add: n)
  qed
qed

lemma hex_char_lower: "n < 16 \<Longrightarrow> lower_hex (hex_char n)"
  unfolding hex_char_def lower_hex_def by (rule nth_mem) simp

lemma bytes_hex_shape: "length (bytes_hex bs) = 2 * length bs \<and> list_all lower_hex (bytes_hex bs)"
proof (induction bs)
  case Nil
  show ?case by (simp add: bytes_hex_def)
next
  case (Cons b bs)
  have "unat b < 256" using unsigned_less[of b] by simp
  then have "unat b div 16 < 16" by simp
  then show ?case using Cons by (simp add: bytes_hex_def hex_char_lower)
qed

lemma parse_inputs_checked_valid:
  "parse_inputs_checked k data pos = Inr (ins, p) \<Longrightarrow> length ins = k \<and> list_all valid_input ins"
proof (induction k arbitrary: pos ins p)
  case 0
  then show ?case by simp
next
  case (Suc k)
  from Suc.prems obtain h p1 idx p2 sl p3 script p4 sq p5 rest where
    h: "read_checked data pos 32 = Inr (h, p1)"
    and idx: "u32_checked data p1 = Inr (idx, p2)"
    and sl: "varint_checked data p2 = Inr (sl, p3)"
    and script: "read_checked data p3 (nat sl) = Inr (script, p4)"
    and sq: "u32_checked data p4 = Inr (sq, p5)"
    and rest: "parse_inputs_checked k data p5 = Inr (rest, p)"
    and ins: "ins = \<lparr>prev_hash = bytes_hex h, prev_index = idx,
                      scriptSig = script, sequence = sq\<rparr> # rest"
    by (auto simp: bind_exc_Inr)
  have "int (length script) < 2 ^ 64"
    using read_checked_Inr[OF script] varint_checked_range[OF sl] by simp
  then have "valid_input \<lparr>prev_hash = bytes_hex h, prev_index = idx,
                           scriptSig = script, sequence = sq\<rparr>"
    using read_checked_Inr[OF h] bytes_hex_shape[of h] u32_checked_range[OF idx]
      u32_checked_range[OF sq]
    by (simp add: valid_input_def)
  then show ?case using Suc.IH[OF rest] ins by simp
qed

lemma parse_outputs_checked_valid:
  "parse_outputs_checked k data pos = Inr (outs, p) \<Longrightarrow>
   length outs = k \<and> list_all valid_output outs"
proof (induction k arbitrary: pos outs p)
  case 0
  then show ?case by simp
next
  case (Suc k)
  from Suc.prems obtain v p1 sl p2 script p3 rest where
    v: "u64_checked data pos = Inr (v, p1)"
    and sl: "varint_checked data p1 = Inr (sl, p2)"
    and script: "read_checked data p2 (nat sl) = Inr (script, p3)"
    and rest: "parse_outputs_checked k data p3 = Inr (rest, p)"
    and outs: "outs = \<lparr>value' = v, scriptPubKey = script\<rparr> # rest"
    by (auto simp: bind_exc_Inr)
  have "int (length script) < 2 ^ 64"
    using read_checked_Inr[OF script] varint_checked_range[OF sl] by simp
  then have "valid_output \<lparr>value' = v, scriptPubKey = script\<rparr>"
    using u64_checked_range[OF v] by (simp add: valid_output_def)
  then show ?case using Suc.IH[OF rest] outs by simp
qed

text \<open>
  Every record that the parser returns has its fields in the ranges of \<open>valid_tx\<close>: the
  records of the round-trip property are exactly the records that decoding can give.
\<close>

lemma parse_returns_valid:
  assumes "parse data = Inr tx"
  shows "valid_tx tx"
proof -
  from assms obtain p where "parse_from data 0 = Inr (tx, p)"
    by (cases "parse_from data 0") (auto simp: parse_def)
  with parse_from_agrees[of data] have "parse_from_checked data 0 = Inr (tx, p)"
    by (simp add: agrees_def)
  then obtain ver p1 ni p2 ins p3 no p4 outs p5 lock where
    ver: "i32_checked data 0 = Inr (ver, p1)"
    and ni: "varint_checked data p1 = Inr (ni, p2)"
    and ins: "parse_inputs_checked (nat ni) data p2 = Inr (ins, p3)"
    and no: "varint_checked data p3 = Inr (no, p4)"
    and outs: "parse_outputs_checked (nat no) data p4 = Inr (outs, p5)"
    and lock: "u32_checked data p5 = Inr (lock, p)"
    and tx: "tx = \<lparr>version = ver, inputs = ins, outputs = outs, locktime = lock\<rparr>"
    by (auto simp: parse_from_checked_def bind_exc_Inr)
  show ?thesis
    using i32_checked_range[OF ver] varint_checked_range[OF ni] varint_checked_range[OF no]
      parse_inputs_checked_valid[OF ins] parse_outputs_checked_valid[OF outs]
      u32_checked_range[OF lock]
    by (simp add: tx valid_tx_def)
qed

section \<open>Properties of the transaction parser: round trip\<close>

lemma length_le_bytes: "length (le_bytes k v) = k"
  by (induction k arbitrary: v) simp_all

lemma from_bytes_little_le_bytes: "from_bytes_little (le_bytes k v) = v mod 256 ^ k"
proof (induction k arbitrary: v)
  case 0
  show ?case by (simp add: from_bytes_little_def)
next
  case (Suc k)
  have "from_bytes_little (le_bytes (Suc k) v)
        = uint (word_of_int v :: byte) + 256 * from_bytes_little (le_bytes k (v div 256))"
    by (simp add: from_bytes_little_def)
  also have "\<dots> = v mod 256 + 256 * ((v div 256) mod 256 ^ k)"
    by (simp add: Suc uint_word_of_int take_bit_eq_mod)
  also have "\<dots> = v mod 256 ^ Suc k"
    by (simp add: zmod_zmult2_eq)
  finally show ?case .
qed

lemma from_bytes_little_le_bytes_id:
  "0 \<le> v \<Longrightarrow> v < 256 ^ k \<Longrightarrow> from_bytes_little (le_bytes k v) = v"
  by (simp add: from_bytes_little_le_bytes)

lemma drop_advance: "drop pos data = X @ rest \<Longrightarrow> drop (pos + length X) data = rest"
  by (metis add.commute append_eq_conv_conj drop_drop)

lemma slice_at: "drop pos data = bs @ rest \<Longrightarrow> py_slice data pos (pos + length bs) = bs"
  by (simp add: py_slice_def)

lemma read_at: "drop pos data = bs @ rest \<Longrightarrow> read data pos (length bs) = (bs, pos + length bs)"
  by (simp add: read_def slice_at)

lemma u32_at:
  assumes "drop pos data = le_bytes 4 v @ rest" "0 \<le> v" "v < 2 ^ 32"
  shows "u32 data pos = Inr (v, pos + 4)"
  using slice_at[OF assms(1)] assms(2,3)
  by (simp add: u32_def read_def unpack_unsigned_def bind_exc_def length_le_bytes
        from_bytes_little_le_bytes_id)

lemma u64_at:
  assumes "drop pos data = le_bytes 8 v @ rest" "0 \<le> v" "v < 2 ^ 64"
  shows "u64 data pos = Inr (v, pos + 8)"
  using slice_at[OF assms(1)] assms(2,3)
  by (simp add: u64_def read_def unpack_unsigned_def bind_exc_def length_le_bytes
        from_bytes_little_le_bytes_id)

lemma i32_at:
  assumes "drop pos data = le_bytes 4 v @ rest" "- (2 ^ 31) \<le> v" "v < 2 ^ 31"
  shows "i32 data pos = Inr (v, pos + 4)"
proof -
  have m: "v mod 4294967296 = (if 0 \<le> v then v else v + 4294967296)"
  proof (cases "0 \<le> v")
    case True
    then show ?thesis using assms(3) by simp
  next
    case False
    then have "(v + 4294967296) mod 4294967296 = v + 4294967296"
      using assms(2) by (intro mod_pos_pos_trivial) simp_all
    with False show ?thesis by simp
  qed
  show ?thesis
    using slice_at[OF assms(1)] assms(2,3)
    by (simp add: i32_def read_def unpack_i32_def bind_exc_def length_le_bytes
          from_bytes_little_le_bytes m Let_def)
qed

lemma first_byte_at: "drop pos data = b # rest \<Longrightarrow> py_index data pos = Inr b"
proof -
  assume d: "drop pos data = b # rest"
  then have "pos < length data" by (metis drop_eq_Nil list.distinct(1) not_le)
  moreover have "data ! pos = b" using d by (rule nth_via_drop)
  ultimately show ?thesis by (simp add: py_index_def)
qed

lemma uint_byte_of_int: "0 \<le> n \<Longrightarrow> n < 256 \<Longrightarrow> uint (word_of_int n :: byte) = n"
  by (simp add: uint_word_of_int take_bit_eq_mod)

lemma varint_at:
  assumes d: "drop pos data = ser_varint n @ rest" and n: "0 \<le> n" "n < 2 ^ 64"
  shows "varint data pos = Inr (n, pos + length (ser_varint n))"
proof -
  consider (a) "n < 0xfd" | (b) "0xfd \<le> n" "n \<le> 0xffff" | (c) "0xffff < n" "n \<le> 0xffffffff"
    | (d) "0xffffffff < n" by linarith
  then show ?thesis
  proof cases
    case a
    then have s: "ser_varint n = [word_of_int n]" by (simp add: ser_varint_def)
    have u: "uint (word_of_int n :: byte) = n" using a n by (simp add: uint_byte_of_int)
    then have lt: "(word_of_int n :: byte) < 0xfd" using a by (simp add: word_less_def)
    have "py_index data pos = Inr (word_of_int n)" using d s by (simp add: first_byte_at)
    then show ?thesis using lt u s by (simp add: varint_def bind_exc_def)
  next
    case b
    then have s: "ser_varint n = 0xfd # le_bytes 2 n" by (simp add: ser_varint_def)
    have f: "py_index data pos = Inr 0xfd" using d s by (simp add: first_byte_at)
    have "drop (pos + length [0xfd :: byte]) data = le_bytes 2 n @ rest"
      using d s by (intro drop_advance) simp
    then have "py_slice data (pos + 1) (pos + 1 + length (le_bytes 2 n)) = le_bytes 2 n"
      by (intro slice_at) simp
    then have c: "py_slice data (Suc pos) (Suc (Suc (Suc pos))) = le_bytes 2 n"
      by (simp add: length_le_bytes)
    have v: "from_bytes_little (le_bytes 2 n) = n"
      using b n by (intro from_bytes_little_le_bytes_id) simp_all
    show ?thesis using f c v s
      by (simp add: varint_def bind_exc_def read_def unpack_unsigned_def length_le_bytes)
  next
    case c
    then have s: "ser_varint n = 0xfe # le_bytes 4 n" by (simp add: ser_varint_def)
    have f: "py_index data pos = Inr 0xfe" using d s by (simp add: first_byte_at)
    have "drop (pos + length [0xfe :: byte]) data = le_bytes 4 n @ rest"
      using d s by (intro drop_advance) simp
    then have "py_slice data (pos + 1) (pos + 1 + length (le_bytes 4 n)) = le_bytes 4 n"
      by (intro slice_at) simp
    then have c': "py_slice data (Suc pos) (Suc (pos + 4)) = le_bytes 4 n"
      by (simp add: length_le_bytes)
    have v: "from_bytes_little (le_bytes 4 n) = n"
      using c n by (intro from_bytes_little_le_bytes_id) simp_all
    show ?thesis using f c' v s
      by (simp add: varint_def bind_exc_def read_def unpack_unsigned_def length_le_bytes)
  next
    case d': d
    then have s: "ser_varint n = 0xff # le_bytes 8 n" by (simp add: ser_varint_def)
    have f: "py_index data pos = Inr 0xff" using d s by (simp add: first_byte_at)
    have "drop (pos + length [0xff :: byte]) data = le_bytes 8 n @ rest"
      using d s by (intro drop_advance) simp
    then have "py_slice data (pos + 1) (pos + 1 + length (le_bytes 8 n)) = le_bytes 8 n"
      by (intro slice_at) simp
    then have c': "py_slice data (Suc pos) (Suc (pos + 8)) = le_bytes 8 n"
      by (simp add: length_le_bytes)
    have v: "from_bytes_little (le_bytes 8 n) = n"
      using n by (intro from_bytes_little_le_bytes_id) simp_all
    show ?thesis using f c' v s
      by (simp add: varint_def bind_exc_def read_def unpack_unsigned_def length_le_bytes)
  qed
qed

lemma lower_hex_digit:
  assumes "lower_hex c"
  shows "\<not> ascii_space c \<and> hex_digit c \<noteq> None \<and> the (hex_digit c) < 16
         \<and> hex_char (the (hex_digit c)) = c"
proof -
  from assms consider "c = CHR ''0''" | "c = CHR ''1''" | "c = CHR ''2''" | "c = CHR ''3''"
    | "c = CHR ''4''" | "c = CHR ''5''" | "c = CHR ''6''" | "c = CHR ''7''" | "c = CHR ''8''"
    | "c = CHR ''9''" | "c = CHR ''a''" | "c = CHR ''b''" | "c = CHR ''c''" | "c = CHR ''d''"
    | "c = CHR ''e''" | "c = CHR ''f''"
    unfolding lower_hex_def by fastforce
  then show ?thesis
    by cases (simp_all add: ascii_space_def hex_digit_def hex_char_def)
qed

lemma hex_byte:
  assumes "hi < 16" "lo < 16"
  shows "unat (of_nat (16 * hi + lo) :: byte) div 16 = hi \<and> unat (of_nat (16 * hi + lo) :: byte) mod 16 = lo"
proof -
  have "16 * hi + lo < 256" using assms by simp
  then have "unat (of_nat (16 * hi + lo) :: byte) = 16 * hi + lo"
    by (intro of_nat_inverse[OF refl]) simp
  then show ?thesis using assms by simp
qed

lemma fromhex_lower:
  "length s = 2 * k \<Longrightarrow> list_all lower_hex s \<Longrightarrow>
   \<exists>bs. fromhex s = Inr bs \<and> length bs = k \<and> bytes_hex bs = s"
proof (induction k arbitrary: s)
  case 0
  then show ?case by (simp add: bytes_hex_def)
next
  case (Suc k)
  then obtain c d t where s: "s = c # d # t"
    by (cases s; cases "tl s") auto
  from Suc.prems s have t: "length t = 2 * k" "list_all lower_hex t"
    and cd: "lower_hex c" "lower_hex d" by simp_all
  from Suc.IH[OF t] obtain bs where bs: "fromhex t = Inr bs" "length bs = k" "bytes_hex bs = t"
    by blast
  from lower_hex_digit[OF cd(1)] obtain hi where hi: "\<not> ascii_space c" "hi < 16"
    "hex_digit c = Some hi" "hex_char hi = c" by auto
  from lower_hex_digit[OF cd(2)] obtain lo where lo: "lo < 16"
    "hex_digit d = Some lo" "hex_char lo = d" by auto
  have "fromhex s = Inr (of_nat (16 * hi + lo) # bs)"
    using s hi lo bs by simp
  moreover have "bytes_hex (of_nat (16 * hi + lo) # bs) = s"
    using hex_byte[OF hi(2) lo(1)] hi lo bs s by (simp add: bytes_hex_def)
  ultimately show ?case using bs by simp
qed

lemma bytes_of_hex_valid:
  assumes "valid_input i"
  shows "length (bytes_of_hex (prev_hash i)) = 32 \<and> bytes_hex (bytes_of_hex (prev_hash i)) = prev_hash i"
proof -
  have "length (prev_hash i) = 2 * 32" "list_all lower_hex (prev_hash i)"
    using assms by (simp_all add: valid_input_def)
  from fromhex_lower[OF this] show ?thesis by (auto simp: bytes_of_hex_def)
qed

lemma parse_inputs_at:
  assumes "list_all valid_input ins" "drop pos data = concat (map ser_input ins) @ rest"
  shows "parse_inputs (length ins) data pos = Inr (ins, pos + length (concat (map ser_input ins)))"
  using assms
proof (induction ins arbitrary: pos)
  case Nil
  then show ?case by simp
next
  case (Cons i ins)
  let ?h = "bytes_of_hex (prev_hash i)"
  let ?L = "int (length (scriptSig i))"
  let ?tail = "concat (map ser_input ins) @ rest"
  from Cons.prems have v: "valid_input i" and vs: "list_all valid_input ins" by simp_all
  have h: "length ?h = 32" "bytes_hex ?h = prev_hash i"
    using bytes_of_hex_valid[OF v] by simp_all
  have rng: "0 \<le> prev_index i" "prev_index i < 2 ^ 32" "0 \<le> sequence i" "sequence i < 2 ^ 32"
    "0 \<le> ?L" "?L < 2 ^ 64"
    using v by (simp_all add: valid_input_def)
  have d0: "drop pos data = ?h @ (le_bytes 4 (prev_index i) @ ser_varint ?L @ scriptSig i
                                   @ le_bytes 4 (sequence i) @ ?tail)"
    using Cons.prems(2) by (simp add: ser_input_def[of i])
  define p1 where "p1 = pos + 32"
  define p2 where "p2 = p1 + 4"
  define p3 where "p3 = p2 + length (ser_varint ?L)"
  define p4 where "p4 = p3 + length (scriptSig i)"
  define p5 where "p5 = p4 + 4"
  have r1: "read data pos 32 = (?h, p1)"
    using read_at[OF d0] h(1) by (simp add: p1_def)
  have d1: "drop p1 data = le_bytes 4 (prev_index i) @ (ser_varint ?L @ scriptSig i
                                   @ le_bytes 4 (sequence i) @ ?tail)"
    using drop_advance[OF d0] h(1) by (simp add: p1_def)
  have r2: "u32 data p1 = Inr (prev_index i, p2)"
    using u32_at[OF d1 rng(1,2)] by (simp add: p2_def)
  have d2: "drop p2 data = ser_varint ?L @ (scriptSig i @ le_bytes 4 (sequence i) @ ?tail)"
    using drop_advance[OF d1] by (simp add: p2_def length_le_bytes)
  have r3: "varint data p2 = Inr (?L, p3)"
    using varint_at[OF d2 rng(5,6)] by (simp add: p3_def)
  have d3: "drop p3 data = scriptSig i @ (le_bytes 4 (sequence i) @ ?tail)"
    using drop_advance[OF d2] by (simp add: p3_def)
  have r4: "read data p3 (nat ?L) = (scriptSig i, p4)"
    using read_at[OF d3] by (simp add: p4_def)
  have d4: "drop p4 data = le_bytes 4 (sequence i) @ ?tail"
    using drop_advance[OF d3] by (simp add: p4_def)
  have r5: "u32 data p4 = Inr (sequence i, p5)"
    using u32_at[OF d4 rng(3,4)] by (simp add: p5_def)
  have d5: "drop p5 data = concat (map ser_input ins) @ rest"
    using drop_advance[OF d4] by (simp add: p5_def length_le_bytes)
  have r6: "parse_inputs (length ins) data p5
            = Inr (ins, p5 + length (concat (map ser_input ins)))"
    using Cons.IH[OF vs d5] .
  have "parse_inputs (Suc (length ins)) data pos
        = Inr (\<lparr>prev_hash = bytes_hex ?h, prev_index = prev_index i,
                 scriptSig = scriptSig i, sequence = sequence i\<rparr> # ins,
               p5 + length (concat (map ser_input ins)))"
    by (simp only: parse_inputs.simps r1 r2 r3 r4 r5 r6 Let_def prod.case bind_exc_def sum.case)
  moreover have "p5 + length (concat (map ser_input ins))
                 = pos + length (concat (map ser_input (i # ins)))"
    by (simp add: p5_def p4_def p3_def p2_def p1_def ser_input_def[of i] length_le_bytes h(1))
  ultimately show ?case using h(2) by simp
qed

lemma parse_outputs_at:
  assumes "list_all valid_output outs" "drop pos data = concat (map ser_output outs) @ rest"
  shows "parse_outputs (length outs) data pos
         = Inr (outs, pos + length (concat (map ser_output outs)))"
  using assms
proof (induction outs arbitrary: pos)
  case Nil
  then show ?case by simp
next
  case (Cons out outs)
  let ?L = "int (length (scriptPubKey out))"
  let ?tail = "concat (map ser_output outs) @ rest"
  from Cons.prems have v: "valid_output out" and vs: "list_all valid_output outs" by simp_all
  have rng: "0 \<le> value' out" "value' out < 2 ^ 64" "0 \<le> ?L" "?L < 2 ^ 64"
    using v by (simp_all add: valid_output_def)
  have d0: "drop pos data = le_bytes 8 (value' out) @ (ser_varint ?L @ scriptPubKey out @ ?tail)"
    using Cons.prems(2) by (simp add: ser_output_def[of out])
  define p1 where "p1 = pos + 8"
  define p2 where "p2 = p1 + length (ser_varint ?L)"
  define p3 where "p3 = p2 + length (scriptPubKey out)"
  have r1: "u64 data pos = Inr (value' out, p1)"
    using u64_at[OF d0 rng(1,2)] by (simp add: p1_def)
  have d1: "drop p1 data = ser_varint ?L @ (scriptPubKey out @ ?tail)"
    using drop_advance[OF d0] by (simp add: p1_def length_le_bytes)
  have r2: "varint data p1 = Inr (?L, p2)"
    using varint_at[OF d1 rng(3,4)] by (simp add: p2_def)
  have d2: "drop p2 data = scriptPubKey out @ ?tail"
    using drop_advance[OF d1] by (simp add: p2_def)
  have r3: "read data p2 (nat ?L) = (scriptPubKey out, p3)"
    using read_at[OF d2] by (simp add: p3_def)
  have d3: "drop p3 data = concat (map ser_output outs) @ rest"
    using drop_advance[OF d2] by (simp add: p3_def)
  have r4: "parse_outputs (length outs) data p3
            = Inr (outs, p3 + length (concat (map ser_output outs)))"
    using Cons.IH[OF vs d3] .
  have "parse_outputs (Suc (length outs)) data pos
        = Inr (\<lparr>value' = value' out, scriptPubKey = scriptPubKey out\<rparr> # outs,
               p3 + length (concat (map ser_output outs)))"
    by (simp only: parse_outputs.simps r1 r2 r3 r4 Let_def prod.case bind_exc_def sum.case)
  moreover have "p3 + length (concat (map ser_output outs))
                 = pos + length (concat (map ser_output (out # outs)))"
    by (simp add: p3_def p2_def p1_def ser_output_def[of out] length_le_bytes)
  ultimately show ?case by simp
qed

lemma parse_serialize_trailing:
  assumes "valid_tx tx"
  shows "parse (serialize_tx tx @ extra) = Inr tx"
proof -
  let ?data = "serialize_tx tx @ extra"
  let ?ni = "int (length (inputs tx))"
  let ?no = "int (length (outputs tx))"
  let ?I = "concat (map ser_input (inputs tx))"
  let ?O = "concat (map ser_output (outputs tx))"
  have rng: "- (2 ^ 31) \<le> version tx" "version tx < 2 ^ 31" "0 \<le> locktime tx"
    "locktime tx < 2 ^ 32" "0 \<le> ?ni" "?ni < 2 ^ 64" "0 \<le> ?no" "?no < 2 ^ 64"
    and vi: "list_all valid_input (inputs tx)" and vo: "list_all valid_output (outputs tx)"
    using assms by (simp_all add: valid_tx_def)
  have d0: "drop 0 ?data = le_bytes 4 (version tx) @ (ser_varint ?ni @ ?I @ ser_varint ?no @ ?O
                            @ le_bytes 4 (locktime tx) @ extra)"
    by (simp add: serialize_tx_def)
  define p1 where "p1 = (0::nat) + 4"
  define p2 where "p2 = p1 + length (ser_varint ?ni)"
  define p3 where "p3 = p2 + length ?I"
  define p4 where "p4 = p3 + length (ser_varint ?no)"
  define p5 where "p5 = p4 + length ?O"
  have r1: "i32 ?data 0 = Inr (version tx, p1)"
    using i32_at[OF d0 rng(1,2)] by (simp add: p1_def)
  have d1: "drop p1 ?data = ser_varint ?ni @ (?I @ ser_varint ?no @ ?O @ le_bytes 4 (locktime tx) @ extra)"
    using drop_advance[OF d0] by (simp add: p1_def length_le_bytes)
  have r2: "varint ?data p1 = Inr (?ni, p2)"
    using varint_at[OF d1 rng(5,6)] by (simp add: p2_def)
  have d2: "drop p2 ?data = ?I @ (ser_varint ?no @ ?O @ le_bytes 4 (locktime tx) @ extra)"
    using drop_advance[OF d1] by (simp add: p2_def)
  have r3: "parse_inputs (nat ?ni) ?data p2 = Inr (inputs tx, p3)"
    using parse_inputs_at[OF vi d2] by (simp add: p3_def)
  have d3: "drop p3 ?data = ser_varint ?no @ (?O @ le_bytes 4 (locktime tx) @ extra)"
    using drop_advance[OF d2] by (simp add: p3_def)
  have r4: "varint ?data p3 = Inr (?no, p4)"
    using varint_at[OF d3 rng(7,8)] by (simp add: p4_def)
  have d4: "drop p4 ?data = ?O @ (le_bytes 4 (locktime tx) @ extra)"
    using drop_advance[OF d3] by (simp add: p4_def)
  have r5: "parse_outputs (nat ?no) ?data p4 = Inr (outputs tx, p5)"
    using parse_outputs_at[OF vo d4] by (simp add: p5_def)
  have d5: "drop p5 ?data = le_bytes 4 (locktime tx) @ extra"
    using drop_advance[OF d4] by (simp add: p5_def)
  have r6: "u32 ?data p5 = Inr (locktime tx, p5 + 4)"
    using u32_at[OF d5 rng(3,4)] .
  have "parse_from ?data 0
        = Inr (\<lparr>version = version tx, inputs = inputs tx, outputs = outputs tx,
                 locktime = locktime tx\<rparr>, p5 + 4)"
    by (simp only: parse_from_def r1 r2 r3 r4 r5 r6 prod.case bind_exc_def sum.case)
  then show ?thesis by (simp add: parse_def)
qed

lemma parse_serialize:
  assumes "valid_tx tx"
  shows "parse (serialize_tx tx) = Inr tx"
  using parse_serialize_trailing[OF assms, of "[]"] by simp

text \<open>
  Claim C1. A well-formed transaction byte sequence is the serialization \<open>b\<close> of a
  record \<open>tx\<close> with fields in their ranges (\<open>valid_tx\<close>, which holds of every record
  that the parser returns), its counts and script lengths written as shortest varints,
  whatever their values below \<open>2^64\<close> (so also at 0, 252, 253, 65535, 65536 and
  \<open>2^32 - 1\<close>, where the width of the varint changes). Decoding \<open>b\<close> with the parser
  returns a record, and re-serializing that record reproduces \<open>b\<close> exactly.
\<close>

theorem decode_then_reserialize:
  assumes "valid_tx tx" and "b = serialize_tx tx"
  shows "\<exists>tx'. parse b = Inr tx' \<and> serialize_tx tx' = b"
  using parse_serialize[OF assms(1)] assms(2) by simp

theorem decode_then_reserialize_witness:
  "valid_tx \<lparr>version = 1,
             inputs = [\<lparr>prev_hash = replicate 64 (CHR ''0''), prev_index = 0xffffffff,
                        scriptSig = replicate 253 0x41, sequence = 0xffffffff\<rparr>],
             outputs = [], locktime = 0\<rparr>
   \<and> (\<exists>tx'. parse (serialize_tx \<lparr>version = 1,
             inputs = [\<lparr>prev_hash = replicate 64 (CHR ''0''), prev_index = 0xffffffff,
                        scriptSig = replicate 253 0x41, sequence = 0xffffffff\<rparr>],
             outputs = [], locktime = 0\<rparr>) = Inr tx'
         \<and> serialize_tx tx' = serialize_tx \<lparr>version = 1,
             inputs = [\<lparr>prev_hash = replicate 64 (CHR ''0''), prev_index = 0xffffffff,
                        scriptSig = replicate 253 0x41, sequence = 0xffffffff\<rparr>],
             outputs = [], locktime = 0\<rparr>)"
proof -
  let ?tx = "\<lparr>version = 1,
             inputs = [\<lparr>prev_hash = replicate 64 (CHR ''0''), prev_index = 0xffffffff,
                        scriptSig = replicate 253 0x41, sequence = 0xffffffff\<rparr>],
             outputs = [], locktime = 0\<rparr>"
  have v: "valid_tx ?tx"
    by (simp add: valid_tx_def valid_input_def lower_hex_def list_all_length)
  show ?thesis using v decode_then_reserialize[OF v refl] by simp
qed

text \<open>
  The hypothesis of well-formedness is needed. The parser ignores whatever follows the
  locktime (lemma \<open>parse_serialize_trailing\<close>), and it reads a count that is written in
  a longer varint than needed as the same count: two different byte sequences then decode
  to one record, so that no serializer can reproduce both.
\<close>

lemma parse_accepts_longer_varint:
  "parse [1, 0, 0, 0, 0xfd, 0, 0, 0, 0, 0, 0, 0] = parse [1, 0, 0, 0, 0, 0, 0, 0, 0, 0]
   \<and> parse [1, 0, 0, 0, 0, 0, 0, 0, 0, 0]
       = Inr \<lparr>version = 1, inputs = [], outputs = [], locktime = 0\<rparr>"
  by (simp add: parse_def parse_from_def i32_def u32_def varint_def read_def py_slice_def
        py_index_def unpack_unsigned_def unpack_i32_def from_bytes_little_def bind_exc_def)

section \<open>Properties of the Stratum session\<close>

subsection \<open>Assembly of the coinbase bytes\<close>

lemma fromhex_space: "ascii_space c \<Longrightarrow> fromhex (c # cs) = fromhex cs"
  by simp

lemma fromhex_pair:
  "\<not> ascii_space c \<Longrightarrow> hex_digit c = Some hi \<Longrightarrow> hex_digit d = Some lo \<Longrightarrow>
   fromhex (c # d # ds) = map_sum id (Cons (of_nat (16 * hi + lo))) (fromhex ds)"
  by simp

lemma fromhex_Inr_cases:
  assumes "fromhex (c # cs) = Inr x"
  shows "(ascii_space c \<and> fromhex cs = Inr x)
         \<or> (\<not> ascii_space c \<and> (\<exists>hi d ds lo x'. hex_digit c = Some hi \<and> cs = d # ds
               \<and> hex_digit d = Some lo \<and> fromhex ds = Inr x' \<and> x = of_nat (16 * hi + lo) # x'))"
proof (cases "ascii_space c")
  case True
  with assms show ?thesis by simp
next
  case False
  with assms obtain hi where hi: "hex_digit c = Some hi"
    by (cases "hex_digit c") simp_all
  with False assms obtain d ds where cs: "cs = d # ds"
    by (cases cs) simp_all
  with False hi assms obtain lo where lo: "hex_digit d = Some lo"
    by (cases "hex_digit d") simp_all
  from assms have "map_sum id (Cons (of_nat (16 * hi + lo))) (fromhex ds) = Inr x"
    unfolding cs fromhex_pair[OF False hi lo] .
  then obtain x' where "fromhex ds = Inr x'" "x = of_nat (16 * hi + lo) # x'"
    by (cases "fromhex ds") simp_all
  with False hi cs lo show ?thesis by simp
qed

lemma fromhex_append:
  "fromhex a = Inr x \<Longrightarrow> fromhex b = Inr y \<Longrightarrow> fromhex (a @ b) = Inr (x @ y)"
proof (induction a arbitrary: x rule: length_induct)
  case (1 a)
  show ?case
  proof (cases a)
    case Nil
    with "1.prems" show ?thesis by simp
  next
    case (Cons c cs)
    from fromhex_Inr_cases[OF "1.prems"(1)[unfolded Cons]]
    show ?thesis
    proof (elim disjE conjE exE)
      assume sp: "ascii_space c" and r: "fromhex cs = Inr x"
      have "fromhex (cs @ b) = Inr (x @ y)"
        using "1.IH" r "1.prems"(2) Cons by simp
      then show ?thesis unfolding Cons append_Cons fromhex_space[OF sp] .
    next
      fix hi d ds lo x'
      assume ns: "\<not> ascii_space c" and hi: "hex_digit c = Some hi" and cs: "cs = d # ds"
        and lo: "hex_digit d = Some lo" and r: "fromhex ds = Inr x'"
        and x: "x = of_nat (16 * hi + lo) # x'"
      have "fromhex (ds @ b) = Inr (x' @ y)"
        using "1.IH" r "1.prems"(2) Cons cs by simp
      then show ?thesis
        unfolding Cons cs append_Cons fromhex_pair[OF ns hi lo] x by simp
    qed
  qed
qed

lemma fromhex_zeros: "fromhex (concat (replicate n ''00'')) = Inr (replicate n 0)"
  by (induction n) (simp_all add: ascii_space_def hex_digit_def)

text \<open>
  Claim C9. For every job template and subscribe result whose hexadecimal fields denote
  bytes (\<open>coinbase_part1\<close>, \<open>extra_nonce1\<close> and \<open>coinbase_part2\<close> each decode), the
  bytes handed to the transaction decoder are the bytes of \<open>coinbase_part1\<close>, then those
  of \<open>extra_nonce1\<close>, then \<open>extra_nonce2_size\<close> zero bytes, then those of
  \<open>coinbase_part2\<close>; and the decoder's result is that of \<open>parse\<close> on them.
\<close>

theorem coinbase_assembly:
  assumes "fromhex cb1 = Inr p1" "fromhex extranonce1 = Inr e1" "fromhex cb2 = Inr p2"
  shows "coinbase_bytes cb1 extranonce1 extranonce2_size cb2
           = Inr (p1 @ e1 @ replicate (nat extranonce2_size) 0 @ p2)
         \<and> decode_coinbase cb1 extranonce1 extranonce2_size cb2
           = parse (p1 @ e1 @ replicate (nat extranonce2_size) 0 @ p2)"
proof -
  have "fromhex (concat (replicate (nat extranonce2_size) ''00'') @ cb2)
        = Inr (replicate (nat extranonce2_size) 0 @ p2)"
    using fromhex_append[OF fromhex_zeros assms(3)] .
  then have "fromhex (extranonce1 @ concat (replicate (nat extranonce2_size) ''00'') @ cb2)
        = Inr (e1 @ replicate (nat extranonce2_size) 0 @ p2)"
    using fromhex_append[OF assms(2)] by blast
  then have "fromhex (cb1 @ extranonce1 @ concat (replicate (nat extranonce2_size) ''00'') @ cb2)
        = Inr (p1 @ e1 @ replicate (nat extranonce2_size) 0 @ p2)"
    using fromhex_append[OF assms(1)] by blast
  then show ?thesis
    by (simp add: coinbase_bytes_def decode_coinbase_def coinbase_hex_def bind_exc_def)
qed

theorem coinbase_assembly_witness:
  "fromhex ''01000000'' = Inr [1, 0, 0, 0] \<and> fromhex ''ab'' = Inr [0xab]
   \<and> fromhex ''ffff'' = Inr [0xff, 0xff]
   \<and> coinbase_bytes ''01000000'' ''ab'' 4 ''ffff''
       = Inr [1, 0, 0, 0, 0xab, 0, 0, 0, 0, 0xff, 0xff]"
proof -
  have a: "fromhex ''01000000'' = Inr [1, 0, 0, 0]" "fromhex ''ab'' = Inr [0xab]"
    "fromhex ''ffff'' = Inr [0xff, 0xff]"
    by (simp_all add: ascii_space_def hex_digit_def)
  have r: "replicate (nat 4) (0::byte) = [0, 0, 0, 0]"
    by (simp add: numeral_eq_Suc)
  show ?thesis
    using a coinbase_assembly[OF a, of 4] unfolding r by simp
qed

subsection \<open>The polling loop\<close>

lemma handle_frame_effect:
  assumes "\<not> raises r"
  shows "\<exists>st'. handle_frame st r = Inr st'
               \<and> notify st' = (if is_notify r then Some r else notify st)
               \<and> auth_rejected st' = (auth_rejected st \<or> is_reject r)"
proof (cases "fr_params r")
  case None
  then show ?thesis
    by (simp add: handle_frame_def is_notify_def is_reject_def is_difficulty_def
          py_index_def bind_exc_def)
next
  case (Some ps)
  with assms have "is_difficulty r \<longrightarrow> ps \<noteq> []" by (simp add: raises_def)
  with Some show ?thesis
    by (cases ps)
       (simp_all add: handle_frame_def is_notify_def is_reject_def is_difficulty_def
          py_index_def bind_exc_def)
qed

lemma handle_frames_effect:
  assumes "\<forall>r\<in>set B. \<not> raises r"
  shows "\<exists>st'. handle_frames st B = Inr st'
               \<and> notify st' = (if \<exists>r\<in>set B. is_notify r then Some (last (filter is_notify B))
                               else notify st)
               \<and> auth_rejected st' = (auth_rejected st \<or> (\<exists>r\<in>set B. is_reject r))"
  using assms
proof (induction B arbitrary: st)
  case Nil
  show ?case by simp
next
  case (Cons r B)
  from Cons.prems have nr: "\<not> raises r" and nB: "\<forall>r\<in>set B. \<not> raises r" by simp_all
  from handle_frame_effect[OF nr, of st] obtain st1 where
    s1: "handle_frame st r = Inr st1"
    "notify st1 = (if is_notify r then Some r else notify st)"
    "auth_rejected st1 = (auth_rejected st \<or> is_reject r)" by blast
  from Cons.IH[OF nB, of st1] obtain st2 where
    s2: "handle_frames st1 B = Inr st2"
    "notify st2 = (if \<exists>r\<in>set B. is_notify r then Some (last (filter is_notify B))
                   else notify st1)"
    "auth_rejected st2 = (auth_rejected st1 \<or> (\<exists>r\<in>set B. is_reject r))" by blast
  have "handle_frames st (r # B) = Inr st2"
    using s1(1) s2(1) by (simp add: bind_exc_def)
  moreover have "notify st2 = (if \<exists>x\<in>set (r # B). is_notify x
                               then Some (last (filter is_notify (r # B))) else notify st)"
    using s1(2) s2(2) by (auto simp: filter_empty_conv)
  moreover have "auth_rejected st2 = (auth_rejected st \<or> (\<exists>x\<in>set (r # B). is_reject x))"
    using s1(3) s2(3) by auto
  ultimately show ?case by blast
qed

text \<open>Batches without a notification or a rejection use up attempts and nothing else.\<close>

lemma poll_quiet:
  assumes "length quiet \<le> n"
    and "\<forall>b\<in>set quiet. \<forall>r\<in>set b. \<not> is_notify r \<and> \<not> is_reject r \<and> \<not> raises r"
    and "notify st = None" "\<not> auth_rejected st"
  shows "\<exists>st'. notify st' = None \<and> \<not> auth_rejected st'
               \<and> poll n (quiet @ rest) st = poll (n - length quiet) rest st'"
  using assms
proof (induction quiet arbitrary: n st)
  case Nil
  then show ?case by auto
next
  case (Cons b quiet)
  from Cons.prems(1) obtain m where n: "n = Suc m" and m: "length quiet \<le> m"
    by (cases n) auto
  from Cons.prems(2) have qb: "\<forall>r\<in>set b. \<not> is_notify r \<and> \<not> is_reject r \<and> \<not> raises r"
    and qq: "\<forall>b\<in>set quiet. \<forall>r\<in>set b. \<not> is_notify r \<and> \<not> is_reject r \<and> \<not> raises r"
    by simp_all
  from qb have "\<forall>r\<in>set b. \<not> raises r" by blast
  from handle_frames_effect[OF this, of st] obtain st1 where
    s1': "handle_frames st b = Inr st1"
    "notify st1 = (if \<exists>r\<in>set b. is_notify r then Some (last (filter is_notify b))
                   else notify st)"
    "auth_rejected st1 = (auth_rejected st \<or> (\<exists>r\<in>set b. is_reject r))"
    by blast
  have s1: "handle_frames st b = Inr st1" "notify st1 = None" "\<not> auth_rejected st1"
    using s1' qb Cons.prems(3,4) by simp_all
  from Cons.IH[OF m qq s1(2,3)] obtain st' where
    "notify st' = None" "\<not> auth_rejected st'"
    "poll m (quiet @ rest) st1 = poll (m - length quiet) rest st'" by blast
  then show ?case
    using s1 n by (auto simp: bind_exc_def)
qed

lemma wait_for_notify_first_batch:
  assumes "length quiet < 15"
    and "\<forall>b\<in>set quiet. \<forall>r\<in>set b. \<not> is_notify r \<and> \<not> is_reject r"
    and "\<forall>r\<in>set (concat quiet @ B). \<not> raises r"
    and "\<exists>r\<in>set B. is_notify r \<or> is_reject r"
  shows "wait_for_notify (quiet @ B # later) =
           (if \<exists>r\<in>set B. is_notify r then JobReceived (last (filter is_notify B))
            else FailedRejected)"
proof -
  let ?st0 = "\<lparr>notify = None, pool_diff = JNull, auth_rejected = False\<rparr>"
  have q: "\<forall>b\<in>set quiet. \<forall>r\<in>set b. \<not> is_notify r \<and> \<not> is_reject r \<and> \<not> raises r"
    using assms(2,3) by auto
  have nB: "\<forall>r\<in>set B. \<not> raises r" using assms(3) by auto
  from poll_quiet[OF _ q, of 15 ?st0 "B # later"] assms(1) obtain st1 where
    s1: "notify st1 = None" "\<not> auth_rejected st1"
    "poll 15 (quiet @ B # later) ?st0 = poll (15 - length quiet) (B # later) st1"
    by auto
  from assms(1) obtain m where m: "15 - length quiet = Suc m"
    by (cases "15 - length quiet") auto
  from handle_frames_effect[OF nB, of st1] obtain st2 where
    s2': "handle_frames st1 B = Inr st2"
    "notify st2 = (if \<exists>r\<in>set B. is_notify r then Some (last (filter is_notify B))
                   else notify st1)"
    "auth_rejected st2 = (auth_rejected st1 \<or> (\<exists>r\<in>set B. is_reject r))"
    by blast
  have s2: "handle_frames st1 B = Inr st2"
    "notify st2 = (if \<exists>r\<in>set B. is_notify r then Some (last (filter is_notify B)) else None)"
    "auth_rejected st2 = (\<exists>r\<in>set B. is_reject r)"
    using s2' s1(1,2) by simp_all
  have brk: "notify st2 \<noteq> None \<or> auth_rejected st2"
    using s2(2,3) assms(4) by auto
  have "poll 15 (quiet @ B # later) ?st0 = Inr st2"
    using s1(3) m s2(1) brk by (simp add: bind_exc_def)
  then show ?thesis
    using s2(2,3) assms(4) by (auto simp: wait_for_notify_def)
qed

lemma poll_15: "poll 15 script st = poll (Suc (Suc (Suc (Suc (Suc (Suc (Suc (Suc (Suc (Suc (Suc (Suc (Suc (Suc (Suc 0))))))))))))))) script st"
  by (simp add: numeral_eq_Suc)

text \<open>
  Claim C5, as the spec states it, does not hold of the code, and its two halves cannot
  both hold of a sequence in which a rejection is followed by a job notification. When
  both frames come out of one call of \<open>_stratum_recv\<close>, the rejection arrives before any
  job notification and yet the job is taken; when the job notification comes out of a
  later call, it arrives after the rejection and yet the session has failed (the loop
  has stopped at the rejection, and the job is never read).
\<close>

theorem polling_depends_on_batches:
  "reject_arrives_first [rejection_frame, job_frame]
   \<and> wait_for_notify [[rejection_frame, job_frame]] = JobReceived job_frame
   \<and> notify_after_reject [rejection_frame, job_frame]
   \<and> wait_for_notify [[rejection_frame], [job_frame]] = FailedRejected"
  by (simp add: reject_arrives_first_def notify_after_reject_def wait_for_notify_def poll_15
        handle_frame_def bind_exc_def is_notify_def is_reject_def is_difficulty_def
        rejection_frame_def job_frame_def)

text \<open>
  Claim C5, amended. For every scripted sequence of receive batches in which no frame
  makes the loop raise: let \<open>B\<close> be the first batch, among the first 15, that holds a job
  notification or an authorize rejection. If \<open>B\<close> holds a job notification, the job (the
  last notification of \<open>B\<close>) is accepted and decoded, also when \<open>B\<close> holds an authorize
  rejection, before or after it. If \<open>B\<close> holds an authorize rejection and no job
  notification, the session ends in the Failed (rejected) state; the batches after \<open>B\<close>
  are never read, so that a job notification in one of them is not accepted.
\<close>

theorem polling_outcome:
  assumes "length quiet < 15"
    and "\<forall>b\<in>set quiet. \<forall>r\<in>set b. \<not> is_notify r \<and> \<not> is_reject r"
    and "\<forall>r\<in>set (concat quiet @ B). \<not> raises r"
    and "\<exists>r\<in>set B. is_notify r \<or> is_reject r"
  shows "wait_for_notify (quiet @ B # later) =
           (if \<exists>r\<in>set B. is_notify r then JobReceived (last (filter is_notify B))
            else FailedRejected)"
  using wait_for_notify_first_batch[OF assms] .

theorem polling_outcome_witness:
  "wait_for_notify [[], [job_frame, rejection_frame], [job_frame]] = JobReceived job_frame
   \<and> wait_for_notify [[], [rejection_frame], [job_frame]] = FailedRejected"
proof -
  have a: "wait_for_notify ([[]] @ [job_frame, rejection_frame] # [[job_frame]])
           = JobReceived job_frame"
    using polling_outcome[of "[[]]" "[job_frame, rejection_frame]" "[[job_frame]]"]
    by (simp add: is_notify_def is_reject_def is_difficulty_def raises_def
          rejection_frame_def job_frame_def)
  have b: "wait_for_notify ([[]] @ [rejection_frame] # [[job_frame]]) = FailedRejected"
    using polling_outcome[of "[[]]" "[rejection_frame]" "[[job_frame]]"]
    by (simp add: is_notify_def is_reject_def is_difficulty_def raises_def
          rejection_frame_def job_frame_def)
  show ?thesis using a b by simp
qed

end
